theory Spec2Isabelle
  imports Main
begin

section \<open>The document tree\<close>

text \<open>
  The tree of \<^verbatim>\<open>utils/xast\<close>: a root, elements (name, optional attributes, children) and
  literal nodes (text, comment, ...), which have no children.  The indices of
  \<^verbatim>\<open>PretextState\<close> are \<^verbatim>\<open>WeakMap\<close>s keyed by the identity of the node object, so every node
  carries its identity as a handle: two nodes are the same object iff their handles are
  equal.  An attribute whose value is \<^verbatim>\<open>null\<close> or \<^verbatim>\<open>undefined\<close> reads like a missing one and is
  left out of the association list.
\<close>

type_synonym node_ref = nat

datatype xast_node =
    XRoot node_ref "xast_node list"
  | XElement node_ref string "(string \<times> string) list option" "xast_node list"
  | XText node_ref string

fun ref_of :: "xast_node \<Rightarrow> node_ref" where
  "ref_of (XRoot i cs) = i"
| "ref_of (XElement i nm at cs) = i"
| "ref_of (XText i v) = i"

fun children :: "xast_node \<Rightarrow> xast_node list" where
  "children (XRoot i cs) = cs"
| "children (XElement i nm at cs) = cs"
| "children (XText i v) = []"

text \<open>\<^verbatim>\<open>isElement(node)\<close>: \<^verbatim>\<open>node.type === "element"\<close>.\<close>

fun isElement :: "xast_node \<Rightarrow> bool" where
  "isElement (XElement i nm at cs) = True"
| "isElement n = False"

text \<open>\<^verbatim>\<open>node.name\<close>; only elements have one (the type \<^verbatim>\<open>XastElement\<close> excludes the rest).\<close>

fun name_of :: "xast_node \<Rightarrow> string" where
  "name_of (XElement i nm at cs) = nm"
| "name_of n = []"

text \<open>
  \<^verbatim>\<open>node.attributes\<close>, \<^verbatim>\<open>node.attributes?.[key]\<close> and \<^verbatim>\<open>node.attributes?.[key] || ""\<close>.  The
  last is the empty string when the node has no attributes, when the key is missing, and
  when the value is itself the empty string.
\<close>

fun attributes_of :: "xast_node \<Rightarrow> (string \<times> string) list option" where
  "attributes_of (XElement i nm at cs) = at"
| "attributes_of n = None"

definition attr_of :: "string \<Rightarrow> xast_node \<Rightarrow> string option" where
  "attr_of key node = (case attributes_of node of None \<Rightarrow> None | Some at \<Rightarrow> map_of at key)"

definition attr_or_empty :: "string \<Rightarrow> xast_node \<Rightarrow> string" where
  "attr_or_empty key node = (case attr_of key node of None \<Rightarrow> [] | Some v \<Rightarrow> v)"

section \<open>The state\<close>

record toc_item =
  item_id :: string
  division :: string

record toc_info =
  numbering :: "nat list"
  level :: nat
  parent :: "toc_item option"
  item :: toc_item

record xref_target_info =
  target_node :: xast_node
  tag :: string
  target_id :: string
  title :: "xast_node list"
  codenumber :: string

text \<open>
  The fields of \<^verbatim>\<open>PretextState\<close> that the identifier allocator and the indices use.  The
  slugger is represented by its \<^verbatim>\<open>occurrences\<close> table; \<^verbatim>\<open>_declaredIdCache\<close> is a
  \<^verbatim>\<open>Set\<close>, iterated in insertion order, so it is a list without repetitions.
\<close>

record pretext_state =
  slugger :: "string \<rightharpoonup> nat"
  declaredIdCache :: "string list"
  toc :: "toc_item list"
  tocInfoMap :: "string \<rightharpoonup> toc_info"
  xrefableMap :: "string \<rightharpoonup> xref_target_info"
  root :: xast_node
  parentMap :: "node_ref \<rightharpoonup> xast_node"
  xastNodeToTocDivisionId :: "node_ref \<rightharpoonup> string"
  xastDivisions :: "node_ref set"
  xastBlockToNumber :: "node_ref \<rightharpoonup> nat"

text \<open>The constructor; the handle of the initial, childless root is its argument.\<close>

definition constructor :: "node_ref \<Rightarrow> pretext_state" where
  "constructor r0 =
     \<lparr> slugger = Map.empty, declaredIdCache = [], toc = [], tocInfoMap = Map.empty,
       xrefableMap = Map.empty, root = XRoot r0 [], parentMap = Map.empty,
       xastNodeToTocDivisionId = Map.empty, xastDivisions = {},
       xastBlockToNumber = Map.empty \<rparr>"

section \<open>The identifier allocator\<close>

text \<open>
  Modelled from the spec: the slugger (\<^verbatim>\<open>new Slugger()\<close>, imported from the package
  \<^verbatim>\<open>github-slugger\<close>) is not part of this module.  The allocator ``prefers a slug derived
  from the preferred name, disambiguated by appending an incrementing numeric suffix on
  collision'', and keeps an occurrence ledger \<^verbatim>\<open>occurrences\<close>, which \<^verbatim>\<open>declareId\<close> reads.  The
  definitions follow the package: \<^verbatim>\<open>slug(value, true)\<close> deletes every character matched by
  the package's regular expression and turns each space into a hyphen; the method
  \<^verbatim>\<open>slug\<close> then runs
  \<^verbatim>\<open>while (own.call(occurrences, result)) { occurrences[originalSlug]++; result = originalSlug + '-' + occurrences[originalSlug] }\<close>
  and ends with \<^verbatim>\<open>occurrences[result] = 0\<close>.  The character class of the regular
  expression (a generated Unicode table) is the parameter \<open>rx\<close>; it matches neither the
  hyphen nor a digit.  The ledger is an object without prototype, so every string is an
  ordinary key; counts are natural numbers, printed in decimal.
\<close>

definition slug_value :: "(char \<Rightarrow> bool) \<Rightarrow> string \<Rightarrow> string" where
  "slug_value rx str =
     map (\<lambda>c. if c = CHR '' '' then CHR ''-'' else c) (filter (\<lambda>c. \<not> rx c) str)"

definition digit_char :: "nat \<Rightarrow> char" where
  "digit_char d = ''0123456789'' ! d"

fun string_of_nat :: "nat \<Rightarrow> string" where
  "string_of_nat n =
     (if n < 10 then [digit_char n] else string_of_nat (n div 10) @ [digit_char (n mod 10)])"

declare string_of_nat.simps [simp del]

text \<open>
  The loop of the method \<^verbatim>\<open>slug\<close>.  It is entered with \<open>result = originalSlug\<close>, so
  \<open>originalSlug\<close> is a key whenever the body runs; the branch for a missing key is never
  reached from \<open>slugger_slug\<close>.  A run that does not return is \<open>None\<close>.
\<close>

partial_function (option) slug_loop ::
  "(string \<rightharpoonup> nat) \<Rightarrow> string \<Rightarrow> string \<Rightarrow> (string \<times> (string \<rightharpoonup> nat)) option" where
  "slug_loop occurrences originalSlug result =
     (if occurrences result \<noteq> None then
        (case occurrences originalSlug of
           None \<Rightarrow> None
         | Some n \<Rightarrow>
             slug_loop (occurrences(originalSlug \<mapsto> n + 1)) originalSlug
               (originalSlug @ ''-'' @ string_of_nat (n + 1)))
      else Some (result, occurrences))"

declare slug_loop.simps [code]

definition slugger_slug ::
  "(char \<Rightarrow> bool) \<Rightarrow> (string \<rightharpoonup> nat) \<Rightarrow> string \<Rightarrow> (string \<times> (string \<rightharpoonup> nat)) option" where
  "slugger_slug rx occurrences str =
     (let originalSlug = slug_value rx str
      in case slug_loop occurrences originalSlug originalSlug of
           None \<Rightarrow> None
         | Some (result, occurrences) \<Rightarrow> Some (result, occurrences(result \<mapsto> 0)))"

text \<open>
  \<^verbatim>\<open>declareId\<close>: the id counts as declared when it is in the cache or when
  \<^verbatim>\<open>occurrences[id] > 0\<close>; otherwise it is added to the cache.
\<close>

definition declareId :: "string \<Rightarrow> pretext_state \<Rightarrow> bool \<times> pretext_state" where
  "declareId ident s =
     (if ident \<in> set (declaredIdCache s) \<or>
         (case slugger s ident of None \<Rightarrow> False | Some n \<Rightarrow> 0 < n)
      then (True, s)
      else (False, s\<lparr>declaredIdCache := declaredIdCache s @ [ident]\<rparr>))"

text \<open>
  \<^verbatim>\<open>getUniqueId\<close>: a non-empty cache is drained first (each id is passed to the slugger, in
  insertion order, and the cache is cleared); then the slug of
  \<^verbatim>\<open>preferredName || "auto-generated-id"\<close> is returned.
\<close>

fun drain :: "(char \<Rightarrow> bool) \<Rightarrow> string list \<Rightarrow> (string \<rightharpoonup> nat) \<Rightarrow> (string \<rightharpoonup> nat) option" where
  "drain rx [] occurrences = Some occurrences"
| "drain rx (ident # idents) occurrences =
     (case slugger_slug rx occurrences ident of
        None \<Rightarrow> None
      | Some (result, occurrences) \<Rightarrow> drain rx idents occurrences)"

definition getUniqueId ::
  "(char \<Rightarrow> bool) \<Rightarrow> string option \<Rightarrow> pretext_state \<Rightarrow> (string \<times> pretext_state) option" where
  "getUniqueId rx preferredName s =
     (case (if declaredIdCache s \<noteq> []
            then map_option (\<lambda>occurrences. s\<lparr>slugger := occurrences, declaredIdCache := []\<rparr>)
                   (drain rx (declaredIdCache s) (slugger s))
            else Some s) of
        None \<Rightarrow> None
      | Some s1 \<Rightarrow>
          (case slugger_slug rx (slugger s1)
                  (case preferredName of
                     None \<Rightarrow> ''auto-generated-id''
                   | Some p \<Rightarrow> if p \<noteq> [] then p else ''auto-generated-id'') of
             None \<Rightarrow> None
           | Some (result, occurrences) \<Rightarrow> Some (result, s1\<lparr>slugger := occurrences\<rparr>)))"

text \<open>
  A sequence of calls on one state, with the values they return.
\<close>

datatype call = DeclareId string | GetUniqueId "string option"

datatype reply = Declared bool | Unique string

fun run :: "(char \<Rightarrow> bool) \<Rightarrow> call list \<Rightarrow> pretext_state \<Rightarrow> (reply list \<times> pretext_state) option" where
  "run rx [] s = Some ([], s)"
| "run rx (DeclareId ident # calls) s =
     (case declareId ident s of
        (b, s1) \<Rightarrow> map_option (\<lambda>(replies, s2). (Declared b # replies, s2)) (run rx calls s1))"
| "run rx (GetUniqueId preferredName # calls) s =
     (case getUniqueId rx preferredName s of
        None \<Rightarrow> None
      | Some (u, s1) \<Rightarrow> map_option (\<lambda>(replies, s2). (Unique u # replies, s2)) (run rx calls s1))"

section \<open>The tree walker\<close>

text \<open>
  Modelled from the spec: \<^verbatim>\<open>visit\<close> of \<^verbatim>\<open>utils/xast\<close> is not part of this module.  It
  visits every node reachable from the root in document (pre-)order and calls the visitor
  with the node and its ancestor chain, nearest first (\<^verbatim>\<open>info.parents\<close>), for each node
  matching the test (by default all nodes).  \<open>visit_order\<close> lists the visits; \<open>visit\<close>
  runs a visitor over them, threading the state the visitor mutates.
\<close>

fun visit_order :: "xast_node list \<Rightarrow> xast_node \<Rightarrow> (xast_node \<times> xast_node list) list" where
  "visit_order ps (XRoot i cs) =
     (XRoot i cs, ps) # concat (map (visit_order (XRoot i cs # ps)) cs)"
| "visit_order ps (XElement i nm at cs) =
     (XElement i nm at cs, ps) # concat (map (visit_order (XElement i nm at cs # ps)) cs)"
| "visit_order ps (XText i v) = [(XText i v, ps)]"

definition visit ::
  "xast_node \<Rightarrow> (xast_node \<Rightarrow> xast_node list \<Rightarrow> 'st \<Rightarrow> 'st) \<Rightarrow> (xast_node \<Rightarrow> bool) \<Rightarrow> 'st \<Rightarrow> 'st" where
  "visit tree visitor test st =
     fold (\<lambda>(node, parents) st. if test node then visitor node parents st else st)
       (visit_order [] tree) st"

text \<open>The nodes of a tree in document order, and its elements.\<close>

definition nodes_of :: "xast_node \<Rightarrow> xast_node list" where
  "nodes_of tree = map fst (visit_order [] tree)"

definition elements_of :: "xast_node \<Rightarrow> xast_node list" where
  "elements_of tree = filter isElement (nodes_of tree)"

text \<open>No node object occurs twice in the tree.\<close>

definition distinct_refs :: "xast_node \<Rightarrow> bool" where
  "distinct_refs tree = distinct (map ref_of (nodes_of tree))"

section \<open>The passes\<close>

text \<open>\<^verbatim>\<open>_generateParentMap\<close>: record \<^verbatim>\<open>info.parents[0]\<close>, when there is one, for every node.\<close>

definition generateParentMap :: "pretext_state \<Rightarrow> pretext_state" where
  "generateParentMap s =
     visit (root s)
       (\<lambda>node parents s.
          (case parents of
             [] \<Rightarrow> s
           | par # _ \<Rightarrow> s\<lparr>parentMap := (parentMap s)(ref_of node \<mapsto> par)\<rparr>))
       (\<lambda>node. True) s"

text \<open>
  \<^verbatim>\<open>_generateBlockToNumberMap\<close>.  The classification of \<^verbatim>\<open>stages/helpers/special-tags\<close>
  (\<^verbatim>\<open>isDivision\<close>, \<^verbatim>\<open>NUMBERED_BLOCKS\<close>) is a parameter.  The local counter \<^verbatim>\<open>number\<close> is
  threaded through the visits next to the state.
\<close>

definition generateBlockToNumberMap ::
  "(xast_node \<Rightarrow> bool) \<Rightarrow> string set \<Rightarrow> pretext_state \<Rightarrow> pretext_state" where
  "generateBlockToNumberMap isDivision NUMBERED_BLOCKS s =
     snd (visit (root s)
       (\<lambda>node parents (num, s).
          (let num = (if isDivision node then 0 else num)
           in if name_of node \<in> NUMBERED_BLOCKS
              then (num + 1, s\<lparr>xastBlockToNumber := (xastBlockToNumber s)(ref_of node \<mapsto> num)\<rparr>)
              else (num, s)))
       isElement (0, s))"

text \<open>
  \<^verbatim>\<open>_generateNodeToDivisionIdMap\<close>.  The loop over \<^verbatim>\<open>info.parents\<close> stops at the first
  parent recorded as a division, which is what \<open>find\<close> returns.
\<close>

definition recorded_division :: "pretext_state \<Rightarrow> xast_node \<Rightarrow> bool" where
  "recorded_division s node = (isElement node \<and> ref_of node \<in> xastDivisions s)"

definition generateNodeToDivisionIdMap :: "pretext_state \<Rightarrow> pretext_state" where
  "generateNodeToDivisionIdMap s =
     visit (root s)
       (\<lambda>node parents s.
          if recorded_division s node
          then s\<lparr>xastNodeToTocDivisionId :=
                   (xastNodeToTocDivisionId s)(ref_of node \<mapsto> attr_or_empty ''xml:id'' node)\<rparr>
          else (case find (recorded_division s) parents of
                  None \<Rightarrow> s
                | Some par \<Rightarrow>
                    s\<lparr>xastNodeToTocDivisionId :=
                        (xastNodeToTocDivisionId s)(ref_of node \<mapsto> attr_or_empty ''xml:id'' par)\<rparr>))
       (\<lambda>node. True) s"

text \<open>
  \<^verbatim>\<open>setRoot\<close>.  The passes \<^verbatim>\<open>_generateToc\<close> (\<^verbatim>\<open>helpers/toc\<close>) and \<^verbatim>\<open>_generateRefalbeInfoMap\<close>
  (\<^verbatim>\<open>helpers/refs\<close>) are assigned from other modules; they are parameters here.
\<close>

definition setRoot ::
  "(pretext_state \<Rightarrow> pretext_state) \<Rightarrow> (pretext_state \<Rightarrow> pretext_state) \<Rightarrow>
   xast_node \<Rightarrow> pretext_state \<Rightarrow> pretext_state" where
  "setRoot generateToc generateRefalbeInfoMap r s =
     generateRefalbeInfoMap (generateToc (generateParentMap (s\<lparr>root := r\<rparr>)))"

section \<open>Queries\<close>

text \<open>\<^verbatim>\<open>getTocItemInfo\<close>: the lookup happens only for a non-empty division id.\<close>

definition getTocItemInfo :: "pretext_state \<Rightarrow> xast_node \<Rightarrow> toc_info option" where
  "getTocItemInfo s node =
     (case xastNodeToTocDivisionId s (ref_of node) of
        None \<Rightarrow> None
      | Some tocParentId \<Rightarrow> if tocParentId \<noteq> [] then tocInfoMap s tocParentId else None)"

text \<open>
  \<^verbatim>\<open>getDivisionDisplayName\<close>: the lookup key is \<^verbatim>\<open>tocParentId || ""\<close>.  The table
  \<^verbatim>\<open>STRING_ID_TO_DISPLAY_NAME\<close> of \<^verbatim>\<open>./i18n\<close> is a parameter.
\<close>

definition getDivisionDisplayName ::
  "(string \<rightharpoonup> string) \<Rightarrow> pretext_state \<Rightarrow> xast_node \<Rightarrow> string option" where
  "getDivisionDisplayName STRING_ID_TO_DISPLAY_NAME s node =
     (let tocParentId = xastNodeToTocDivisionId s (ref_of node);
          tocInfo = tocInfoMap s (case tocParentId of None \<Rightarrow> [] | Some v \<Rightarrow> v)
      in case tocInfo of
           None \<Rightarrow> None
         | Some ti \<Rightarrow> STRING_ID_TO_DISPLAY_NAME (division (item ti)))"

text \<open>\<^verbatim>\<open>getBlockInfo\<close>; \<^verbatim>\<open>number\<close> is \<^verbatim>\<open>undefined\<close> for a node without a block number.\<close>

record block_info =
  displayName :: string
  number :: "nat option"
  divisionInfo :: toc_info

definition getBlockInfo ::
  "(string \<rightharpoonup> string) \<Rightarrow> pretext_state \<Rightarrow> xast_node \<Rightarrow> block_info option" where
  "getBlockInfo STRING_ID_TO_DISPLAY_NAME s node =
     (let num = xastBlockToNumber s (ref_of node)
      in case getTocItemInfo s node of
           None \<Rightarrow> None
         | Some di \<Rightarrow>
             Some \<lparr> displayName =
                      (case STRING_ID_TO_DISPLAY_NAME (name_of node) of
                         None \<Rightarrow> name_of node
                       | Some d \<Rightarrow> if d \<noteq> [] then d else name_of node),
                    number = num, divisionInfo = di \<rparr>)"


text \<open>\<^verbatim>\<open>getRefTargetInfo\<close>: look the \<^verbatim>\<open>ref\<close> attribute (or \<^verbatim>\<open>""\<close>) up in \<^verbatim>\<open>_xrefableMap\<close>.\<close>

definition getRefTargetInfo :: "pretext_state \<Rightarrow> xast_node \<Rightarrow> xref_target_info option" where
  "getRefTargetInfo s node = (let refTargetId = attr_or_empty ''ref'' node in xrefableMap s refTargetId)"

text \<open>
  Modelled from the spec: \<^verbatim>\<open>_generateTocItemInfoMap\<close> (\<^verbatim>\<open>helpers/toc\<close>) and
  \<^verbatim>\<open>_generateRefalbeInfoMap\<close> (\<^verbatim>\<open>helpers/refs\<close>), which fill \<^verbatim>\<open>_tocInfoMap\<close> and \<^verbatim>\<open>_xrefableMap\<close>,
  are not part of this module.  Both indices are keyed by identifiers (of ToC items, and
  of nodes whose identifier is resolvable), and the empty string is not an identifier: it
  is what this module writes when a node has none (\<^verbatim>\<open>|| ""\<close>), and the spec reads an empty
  division identifier as ``none''.  So an index has no entry under the empty string.
\<close>

definition no_empty_key :: "(string \<rightharpoonup> 'a) \<Rightarrow> bool" where
  "no_empty_key index = (index [] = None)"

section \<open>Auxiliary notions\<close>

text \<open>
  One visit of a pass that writes at most one entry, under the visited node's handle, into
  a map keyed by node.
\<close>

definition upd_by ::
  "(xast_node \<Rightarrow> xast_node list \<Rightarrow> 'v option) \<Rightarrow> xast_node \<times> xast_node list \<Rightarrow>
   (node_ref \<rightharpoonup> 'v) \<Rightarrow> (node_ref \<rightharpoonup> 'v)" where
  "upd_by g = (\<lambda>(n, ps) m. case g n ps of None \<Rightarrow> m | Some v \<Rightarrow> m(ref_of n \<mapsto> v))"

text \<open>What one visit of \<^verbatim>\<open>_generateNodeToDivisionIdMap\<close> writes, and the visitor itself.\<close>

definition division_id_for ::
  "(xast_node \<Rightarrow> bool) \<Rightarrow> xast_node \<Rightarrow> xast_node list \<Rightarrow> string option" where
  "division_id_for is_div n ps =
     (if is_div n then Some (attr_or_empty ''xml:id'' n)
      else map_option (attr_or_empty ''xml:id'') (find is_div ps))"

definition division_visitor :: "xast_node \<times> xast_node list \<Rightarrow> pretext_state \<Rightarrow> pretext_state" where
  "division_visitor = (\<lambda>(node, parents) st. if True then
          (if recorded_division st node
           then st\<lparr>xastNodeToTocDivisionId :=
                   (xastNodeToTocDivisionId st)(ref_of node \<mapsto> attr_or_empty ''xml:id'' node)\<rparr>
           else (case find (recorded_division st) parents of
                  None \<Rightarrow> st
                | Some par \<Rightarrow>
                    st\<lparr>xastNodeToTocDivisionId :=
                        (xastNodeToTocDivisionId st)(ref_of node \<mapsto> attr_or_empty ''xml:id'' par)\<rparr>))
          else st)"

text \<open>
  The block-numbering visitor, and the same step on the counter and the map alone.
\<close>

definition block_step ::
  "(xast_node \<Rightarrow> bool) \<Rightarrow> string set \<Rightarrow> xast_node \<Rightarrow> nat \<times> (node_ref \<rightharpoonup> nat) \<Rightarrow> nat \<times> (node_ref \<rightharpoonup> nat)" where
  "block_step isDivision NUMBERED_BLOCKS node =
     (\<lambda>(num, m).
        (let num = (if isDivision node then 0 else num)
         in if name_of node \<in> NUMBERED_BLOCKS then (num + 1, m(ref_of node \<mapsto> num))
            else (num, m)))"

text \<open>
  The number of numbered blocks met when walking back through the elements visited so far
  (nearest first), up to and including the most recent division.
\<close>

fun blocks_since_division :: "(xast_node \<Rightarrow> bool) \<Rightarrow> string set \<Rightarrow> xast_node list \<Rightarrow> nat" where
  "blocks_since_division isDivision NUMBERED_BLOCKS [] = 0"
| "blocks_since_division isDivision NUMBERED_BLOCKS (y # ys) =
     (if name_of y \<in> NUMBERED_BLOCKS then 1 else 0) +
     (if isDivision y then 0 else blocks_since_division isDivision NUMBERED_BLOCKS ys)"

definition block_visitor ::
  "(xast_node \<Rightarrow> bool) \<Rightarrow> string set \<Rightarrow> xast_node \<times> xast_node list \<Rightarrow> nat \<times> pretext_state \<Rightarrow> nat \<times> pretext_state" where
  "block_visitor isDivision NUMBERED_BLOCKS =
     (\<lambda>(node, parents) st. if isElement node then
        (\<lambda>(num, s).
          (let num = (if isDivision node then 0 else num)
           in if name_of node \<in> NUMBERED_BLOCKS
              then (num + 1, s\<lparr>xastBlockToNumber := (xastBlockToNumber s)(ref_of node \<mapsto> num)\<rparr>)
              else (num, s))) st else st)"

text \<open>
  The character class that the package's regular expression deletes, on the code units
  below 256: control characters, and the punctuation and symbols other than the hyphen and
  the underscore.  The space, the digits and the letters (with \<^verbatim>\<open>U+00AA\<close>, \<^verbatim>\<open>U+00B5\<close> and
  \<^verbatim>\<open>U+00BA\<close>) are kept.
\<close>

definition ascii_rx :: "char \<Rightarrow> bool" where
  "ascii_rx c =
     (let n = (of_char c :: nat)
      in n < 32 \<or> (33 \<le> n \<and> n \<le> 44) \<or> n = 46 \<or> n = 47 \<or> (58 \<le> n \<and> n \<le> 64) \<or>
         (91 \<le> n \<and> n \<le> 94) \<or> n = 96 \<or> (123 \<le> n \<and> n \<le> 169) \<or>
         (171 \<le> n \<and> n \<le> 180) \<or> (182 \<le> n \<and> n \<le> 185) \<or> (187 \<le> n \<and> n \<le> 191) \<or>
         n = 215 \<or> n = 247)"

text \<open>
  A string that \<^verbatim>\<open>slug(value, true)\<close> leaves unchanged, and the assumption on the character
  class: numeric suffixes survive.
\<close>

definition slug_safe :: "(char \<Rightarrow> bool) \<Rightarrow> string \<Rightarrow> bool" where
  "slug_safe rx str = (\<forall>c \<in> set str. \<not> rx c \<and> c \<noteq> CHR '' '')"

definition keeps_suffix :: "(char \<Rightarrow> bool) \<Rightarrow> bool" where
  "keeps_suffix rx = (\<not> rx CHR ''-'' \<and> (\<forall>c \<in> set ''0123456789''. \<not> rx c))"

text \<open>
  The invariant of the allocator, for the ids \<open>D\<close> declared and \<open>G\<close> generated so far: every
  generated id is a key of the ledger, and every declared id is pending in the cache, or a
  key of the ledger, or a string that no slug can equal.
\<close>

definition alloc_inv :: "(char \<Rightarrow> bool) \<Rightarrow> pretext_state \<Rightarrow> string set \<Rightarrow> string set \<Rightarrow> bool" where
  "alloc_inv rx s D G =
     (finite (dom (slugger s)) \<and> G \<subseteq> dom (slugger s) \<and>
      (\<forall>d \<in> D. d \<in> set (declaredIdCache s) \<or> d \<in> dom (slugger s) \<or> \<not> slug_safe rx d))"

text \<open>A sequence of calls in which ids are declared after one was generated.\<close>

definition example_calls :: "call list" where
  "example_calls =
     [GetUniqueId (Some ''foo''), DeclareId ''foo'', DeclareId ''bar'',
      GetUniqueId (Some ''foo''), GetUniqueId (Some ''bar'')]"

section \<open>An example document\<close>

text \<open>
  The document \<^verbatim>\<open>root > chapter#c1 > (definition, theorem, section#s1 > definition)\<close>, and
  a division classifier that goes by the tag name.
\<close>

definition inner_definition :: xast_node where
  "inner_definition = XElement 5 ''definition'' None []"

definition section_s1 :: xast_node where
  "section_s1 = XElement 4 ''section'' (Some [(''xml:id'', ''s1'')]) [inner_definition]"

definition theorem_node :: xast_node where
  "theorem_node = XElement 3 ''theorem'' None []"

definition outer_definition :: xast_node where
  "outer_definition = XElement 2 ''definition'' None []"

definition chapter_c1 :: xast_node where
  "chapter_c1 = XElement 1 ''chapter'' (Some [(''xml:id'', ''c1'')])
                  [outer_definition, theorem_node, section_s1]"

definition example_doc :: xast_node where
  "example_doc = XRoot 0 [chapter_c1]"

definition division_by_name :: "string set \<Rightarrow> xast_node \<Rightarrow> bool" where
  "division_by_name DIVISIONS node = (isElement node \<and> name_of node \<in> DIVISIONS)"

text \<open>A second document, sharing no node with the first.\<close>

definition other_doc :: xast_node where
  "other_doc = XRoot 10 [XElement 11 ''chapter'' None []]"

text \<open>
  States for the examples: the example document with its chapter and section recorded as
  divisions and present in the ToC; a document whose chapter is recorded as a division but
  has no \<^verbatim>\<open>xml:id\<close>; and cross-references to the chapter \<^verbatim>\<open>c1\<close>, to an unknown target, and
  without a \<^verbatim>\<open>ref\<close> attribute, with the chapter as the only target.
\<close>

definition chapter_info :: toc_info where
  "chapter_info = \<lparr> numbering = [1], level = 0, parent = None,
                     item = \<lparr> item_id = ''c1'', division = ''chapter'' \<rparr> \<rparr>"

definition section_info :: toc_info where
  "section_info = \<lparr> numbering = [1, 1], level = 1,
                     parent = Some \<lparr> item_id = ''c1'', division = ''chapter'' \<rparr>,
                     item = \<lparr> item_id = ''s1'', division = ''section'' \<rparr> \<rparr>"

definition indexed_example :: pretext_state where
  "indexed_example =
     (constructor 9)\<lparr> root := example_doc, xastDivisions := {1, 4},
                       tocInfoMap := [''c1'' \<mapsto> chapter_info, ''s1'' \<mapsto> section_info] \<rparr>"

definition display_names :: "string \<rightharpoonup> string" where
  "display_names = [''chapter'' \<mapsto> ''Chapter'', ''section'' \<mapsto> ''Section'']"

definition bare_text :: xast_node where
  "bare_text = XText 2 ''text''"

definition bare_chapter :: xast_node where
  "bare_chapter = XElement 1 ''chapter'' None [bare_text]"

definition bare_doc :: xast_node where
  "bare_doc = XRoot 0 [bare_chapter]"

definition bare_state :: pretext_state where
  "bare_state = (constructor 9)\<lparr> root := bare_doc, xastDivisions := {1},
                   tocInfoMap := [''c1'' \<mapsto> chapter_info] \<rparr>"

definition xref_without_ref :: xast_node where
  "xref_without_ref = XElement 7 ''xref'' None []"

definition xref_without_attribute :: xast_node where
  "xref_without_attribute = XElement 8 ''xref'' (Some [(''text'', ''global'')]) []"

definition xref_to_c1 :: xast_node where
  "xref_to_c1 = XElement 6 ''xref'' (Some [(''ref'', ''c1'')]) []"

definition xref_dangling :: xast_node where
  "xref_dangling = XElement 12 ''xref'' (Some [(''ref'', ''nowhere'')]) []"

definition chapter_target :: xref_target_info where
  "chapter_target = \<lparr> target_node = chapter_c1, tag = ''chapter'', target_id = ''c1'',
                       title = [], codenumber = ''1'' \<rparr>"

definition xref_state :: pretext_state where
  "xref_state = (constructor 9)\<lparr> xrefableMap := [''c1'' \<mapsto> chapter_target] \<rparr>"

section \<open>The tree walker visits every node with its ancestor chain\<close>

lemma children_induct [case_names node]:
  "(\<And>t. (\<And>c. c \<in> set (children t) \<Longrightarrow> P c) \<Longrightarrow> P t) \<Longrightarrow> P t"
proof (induction t rule: xast_node.induct)
  case (XRoot i cs)
  show ?case by (rule XRoot.prems) (simp add: XRoot.IH XRoot.prems)
next
  case (XElement i nm at cs)
  show ?case by (rule XElement.prems) (simp add: XElement.IH XElement.prems)
next
  case (XText i v)
  show ?case by (rule XText.prems) simp
qed

lemma visit_order_self: "(n, ps) \<in> set (visit_order ps n)"
  by (cases n) simp_all

lemma visit_order_sub:
  "c \<in> set (children t) \<Longrightarrow> set (visit_order (t # qs) c) \<subseteq> set (visit_order qs t)"
  by (cases t) auto

lemma visit_order_cases:
  "(n, ps) \<in> set (visit_order qs t) \<Longrightarrow>
     (n = t \<and> ps = qs) \<or> (\<exists>c \<in> set (children t). (n, ps) \<in> set (visit_order (t # qs) c))"
  by (cases t) auto

lemma visit_order_chain:
  "(n, ps) \<in> set (visit_order qs t) \<Longrightarrow>
     (n = t \<and> ps = qs) \<or>
     (\<exists>p ps'. ps = p # ps' \<and> n \<in> set (children p) \<and> (p, ps') \<in> set (visit_order qs t))"
proof (induction t arbitrary: qs rule: children_induct)
  case (node t)
  from visit_order_cases[OF node.prems] show ?case
  proof
    assume "n = t \<and> ps = qs" then show ?thesis by simp
  next
    assume "\<exists>c\<in>set (children t). (n, ps) \<in> set (visit_order (t # qs) c)"
    then obtain c where c: "c \<in> set (children t)" "(n, ps) \<in> set (visit_order (t # qs) c)"
      by auto
    from node.IH[OF c] show ?thesis
    proof
      assume "n = c \<and> ps = t # qs"
      then show ?thesis using c(1) visit_order_self[of t qs] by auto
    next
      assume "\<exists>p ps'. ps = p # ps' \<and> n \<in> set (children p) \<and> (p, ps') \<in> set (visit_order (t # qs) c)"
      then show ?thesis using visit_order_sub[of c t qs] c(1) by auto
    qed
  qed
qed

lemma visit_order_child:
  "(p, ps) \<in> set (visit_order qs t) \<Longrightarrow> c \<in> set (children p) \<Longrightarrow>
     (c, p # ps) \<in> set (visit_order qs t)"
proof (induction t arbitrary: qs rule: children_induct)
  case (node t)
  from visit_order_cases[OF node.prems(1)] show ?case
  proof
    assume "p = t \<and> ps = qs"
    then show ?thesis
      using node.prems(2) visit_order_sub[of c t qs] visit_order_self[of c "t # qs"] by auto
  next
    assume "\<exists>d\<in>set (children t). (p, ps) \<in> set (visit_order (t # qs) d)"
    then obtain d where d: "d \<in> set (children t)" "(p, ps) \<in> set (visit_order (t # qs) d)"
      by auto
    from node.IH[OF d node.prems(2)] show ?thesis using visit_order_sub[OF d(1), of qs] by auto
  qed
qed

lemma fold_upd_by_notin:
  "k \<notin> ref_of ` fst ` set vs \<Longrightarrow> fold (upd_by g) vs m k = m k"
  by (induction vs arbitrary: m) (auto simp: upd_by_def split: option.splits)

lemma fold_upd_by_in:
  "distinct (map ref_of (map fst vs)) \<Longrightarrow> (n, ps) \<in> set vs \<Longrightarrow>
     fold (upd_by g) vs m (ref_of n) = (case g n ps of None \<Rightarrow> m (ref_of n) | Some v \<Rightarrow> Some v)"
proof (induction vs arbitrary: m)
  case Nil
  then show ?case by simp
next
  case (Cons a vs)
  show ?case
  proof (cases "a = (n, ps)")
    case True
    with Cons.prems have "ref_of n \<notin> ref_of ` fst ` set vs" by auto
    then show ?thesis using True
      by (simp add: fold_upd_by_notin) (simp add: upd_by_def split: option.splits)
  next
    case False
    with Cons.prems have in_vs: "(n, ps) \<in> set vs" and d: "distinct (map ref_of (map fst vs))"
      by auto
    from Cons.prems(1) in_vs have ne: "ref_of (fst a) \<noteq> ref_of n"
      by (auto simp: image_iff) 
    have "upd_by g a m (ref_of n) = m (ref_of n)"
      using ne by (cases a) (simp add: upd_by_def split: option.splits)
    then show ?thesis using Cons.IH[OF d in_vs, of "upd_by g a m"]
      by (simp split: option.splits)
  qed
qed

lemma generateParentMap_fold:
  "fold (\<lambda>(node, parents) st. if True then
          (case parents of [] \<Rightarrow> st
           | par # _ \<Rightarrow> st\<lparr>parentMap := (parentMap st)(ref_of node \<mapsto> par)\<rparr>) else st) vs s
   = s\<lparr>parentMap := fold (upd_by (\<lambda>n ps. case ps of [] \<Rightarrow> None | p # _ \<Rightarrow> Some p)) vs (parentMap s)\<rparr>"
  by (induction vs arbitrary: s) (auto simp: upd_by_def split: list.splits)

lemma generateParentMap_eq:
  "generateParentMap s =
     s\<lparr>parentMap := fold (upd_by (\<lambda>n ps. case ps of [] \<Rightarrow> None | p # _ \<Rightarrow> Some p))
                       (visit_order [] (root s)) (parentMap s)\<rparr>"
  unfolding generateParentMap_def visit_def by (rule generateParentMap_fold)

lemma parentMap_child:
  assumes "distinct_refs (root s)" "p \<in> set (nodes_of (root s))" "n \<in> set (children p)"
  shows "parentMap (generateParentMap s) (ref_of n) = Some p"
proof -
  from assms(2) obtain ps where "(p, ps) \<in> set (visit_order [] (root s))"
    by (auto simp: nodes_of_def)
  then have "(n, p # ps) \<in> set (visit_order [] (root s))"
    using assms(3) by (rule visit_order_child)
  moreover have "distinct (map ref_of (map fst (visit_order [] (root s))))"
    using assms(1) by (simp add: distinct_refs_def nodes_of_def)
  ultimately show ?thesis
    by (simp add: generateParentMap_eq fold_upd_by_in)
qed

lemma parentMap_root:
  assumes "distinct_refs (root s)"
  shows "parentMap (generateParentMap s) (ref_of (root s)) = parentMap s (ref_of (root s))"
proof -
  have "(root s, []) \<in> set (visit_order [] (root s))" by (rule visit_order_self)
  moreover have "distinct (map ref_of (map fst (visit_order [] (root s))))"
    using assms(1) by (simp add: distinct_refs_def nodes_of_def)
  ultimately show ?thesis
    by (simp add: generateParentMap_eq fold_upd_by_in)
qed

lemma parentMap_outside:
  "k \<notin> ref_of ` set (nodes_of (root s)) \<Longrightarrow> parentMap (generateParentMap s) k = parentMap s k"
  by (simp add: generateParentMap_eq nodes_of_def fold_upd_by_notin)

lemma non_root_has_parent:
  assumes "n \<in> set (nodes_of r)" "n \<noteq> r"
  shows "\<exists>p \<in> set (nodes_of r). n \<in> set (children p)"
proof -
  from assms(1) obtain ps where v: "(n, ps) \<in> set (visit_order [] r)"
    by (auto simp: nodes_of_def)
  from visit_order_chain[OF v] assms(2)
  obtain p ps' where "n \<in> set (children p)" "(p, ps') \<in> set (visit_order [] r)" by auto
  then show ?thesis by (force simp: nodes_of_def)
qed

section \<open>The division-membership pass\<close>

lemma recorded_division_upd:
  "recorded_division (t\<lparr>xastNodeToTocDivisionId := v\<rparr>) = recorded_division t"
  by (simp add: recorded_division_def fun_eq_iff)

lemma division_visitor_step:
  "division_visitor a s =
     s\<lparr>xastNodeToTocDivisionId :=
         upd_by (division_id_for (recorded_division s)) a (xastNodeToTocDivisionId s)\<rparr>"
  by (cases a) (simp add: division_visitor_def upd_by_def division_id_for_def split: option.splits)

lemma generateNodeToDivisionIdMap_fold:
  "fold division_visitor vs s
   = s\<lparr>xastNodeToTocDivisionId :=
         fold (upd_by (division_id_for (recorded_division s))) vs (xastNodeToTocDivisionId s)\<rparr>"
proof (induction vs arbitrary: s)
  case Nil
  show ?case by simp
next
  case (Cons a vs)
  have "fold division_visitor (a # vs) s = fold division_visitor vs (division_visitor a s)"
    by simp
  also have "\<dots> = s\<lparr>xastNodeToTocDivisionId :=
         fold (upd_by (division_id_for (recorded_division s))) (a # vs) (xastNodeToTocDivisionId s)\<rparr>"
    unfolding Cons.IH by (simp add: division_visitor_step recorded_division_upd)
  finally show ?case .
qed

lemma generateNodeToDivisionIdMap_eq:
  "generateNodeToDivisionIdMap s =
     s\<lparr>xastNodeToTocDivisionId :=
         fold (upd_by (division_id_for (recorded_division s))) (visit_order [] (root s))
           (xastNodeToTocDivisionId s)\<rparr>"
  unfolding generateNodeToDivisionIdMap_def visit_def
  using generateNodeToDivisionIdMap_fold[unfolded division_visitor_def] .

lemma divisionId_visited:
  assumes "distinct_refs (root s)" "(n, ps) \<in> set (visit_order [] (root s))"
  shows "xastNodeToTocDivisionId (generateNodeToDivisionIdMap s) (ref_of n) =
           (case division_id_for (recorded_division s) n ps of
              None \<Rightarrow> xastNodeToTocDivisionId s (ref_of n)
            | Some v \<Rightarrow> Some v)"
proof -
  have "distinct (map ref_of (map fst (visit_order [] (root s))))"
    using assms(1) by (simp add: distinct_refs_def nodes_of_def)
  then show ?thesis using assms(2)
    by (simp add: generateNodeToDivisionIdMap_eq fold_upd_by_in)
qed

section \<open>The block-numbering pass\<close>

lemma block_visitor_fold:
  "fold (block_visitor isDiv NB) vs (c, s) =
     (fst (fold (block_step isDiv NB) (filter isElement (map fst vs)) (c, xastBlockToNumber s)),
      s\<lparr>xastBlockToNumber :=
          snd (fold (block_step isDiv NB) (filter isElement (map fst vs)) (c, xastBlockToNumber s))\<rparr>)"
proof (induction vs arbitrary: c s)
  case Nil
  show ?case by simp
next
  case (Cons a vs)
  obtain n ps where a: "a = (n, ps)" by (cases a)
  show ?case
  proof (cases "isElement n")
    case False
    then show ?thesis using Cons.IH[of c s] by (simp add: a block_visitor_def)
  next
    case True
    let ?c0 = "if isDiv n then 0 else c"
    show ?thesis
    proof (cases "name_of n \<in> NB")
      case inNB: True
      have st: "block_visitor isDiv NB a (c, s) =
                  (?c0 + 1, s\<lparr>xastBlockToNumber := (xastBlockToNumber s)(ref_of n \<mapsto> ?c0)\<rparr>)"
        using True inNB by (simp add: a block_visitor_def)
      have bs: "block_step isDiv NB n (c, xastBlockToNumber s) =
                  (?c0 + 1, (xastBlockToNumber s)(ref_of n \<mapsto> ?c0))"
        using inNB by (simp add: block_step_def)
      let ?s1 = "s\<lparr>xastBlockToNumber := (xastBlockToNumber s)(ref_of n \<mapsto> ?c0)\<rparr>"
      have "fold (block_visitor isDiv NB) (a # vs) (c, s) =
              fold (block_visitor isDiv NB) vs (?c0 + 1, ?s1)"
        by (simp add: st)
      also have "\<dots> =
          (fst (fold (block_step isDiv NB) (filter isElement (map fst vs))
                  (?c0 + 1, (xastBlockToNumber s)(ref_of n \<mapsto> ?c0))),
           s\<lparr>xastBlockToNumber :=
               snd (fold (block_step isDiv NB) (filter isElement (map fst vs))
                  (?c0 + 1, (xastBlockToNumber s)(ref_of n \<mapsto> ?c0)))\<rparr>)"
        unfolding Cons.IH by simp
      finally show ?thesis using True by (simp only: a bs filter.simps list.map fst_conv if_True fold_simps comp_apply)
    next
      case notNB: False
      have st: "block_visitor isDiv NB a (c, s) = (?c0, s)"
        using True notNB by (simp add: a block_visitor_def)
      have bs: "block_step isDiv NB n (c, xastBlockToNumber s) = (?c0, xastBlockToNumber s)"
        using notNB by (simp add: block_step_def)
      have "fold (block_visitor isDiv NB) (a # vs) (c, s) =
              fold (block_visitor isDiv NB) vs (?c0, s)"
        by (simp add: st)
      also note Cons.IH[of ?c0 s]
      finally show ?thesis using True by (simp only: a bs filter.simps list.map fst_conv if_True fold_simps comp_apply)
    qed
  qed
qed

lemma generateBlockToNumberMap_eq:
  "generateBlockToNumberMap isDiv NB s =
     s\<lparr>xastBlockToNumber :=
         snd (fold (block_step isDiv NB) (elements_of (root s)) (0, xastBlockToNumber s))\<rparr>"
  unfolding generateBlockToNumberMap_def visit_def elements_of_def nodes_of_def
  using block_visitor_fold[of isDiv NB "visit_order [] (root s)" 0 s, unfolded block_visitor_def]
  by simp

lemma block_step_fst:
  "fst (block_step isDiv NB x cm) =
     (if name_of x \<in> NB then 1 else 0) + (if isDiv x then 0 else fst cm)"
  by (cases cm) (simp add: block_step_def)

lemma block_counter:
  "fst (fold (block_step isDiv NB) xs (0, m)) = blocks_since_division isDiv NB (rev xs)"
  by (induction xs rule: rev_induct) (simp_all add: block_step_fst)

lemma block_step_other:
  "ref_of x = k \<longrightarrow> name_of x \<notin> NB \<Longrightarrow> snd (block_step isDiv NB x cm) k = snd cm k"
  by (cases cm) (auto simp: block_step_def)

lemma block_fold_other:
  "\<forall>x \<in> set xs. ref_of x = k \<longrightarrow> name_of x \<notin> NB \<Longrightarrow>
     snd (fold (block_step isDiv NB) xs cm) k = snd cm k"
  by (induction xs arbitrary: cm) (simp_all add: block_step_other)

lemma block_fold_at:
  assumes "distinct (map ref_of (pre @ x # post))" "name_of x \<in> NB"
  shows "snd (fold (block_step isDiv NB) (pre @ x # post) (0, m)) (ref_of x) =
           Some (if isDiv x then 0 else blocks_since_division isDiv NB (rev pre))"
proof -
  obtain c m' where pre: "fold (block_step isDiv NB) pre (0, m) = (c, m')" by force
  then have c: "c = blocks_since_division isDiv NB (rev pre)"
    using block_counter[of isDiv NB pre m] by simp
  have post: "\<forall>y \<in> set post. ref_of y = ref_of x \<longrightarrow> name_of y \<notin> NB"
  proof -
    have "ref_of x \<notin> ref_of ` set post" using assms(1) by simp
    then have "\<forall>y \<in> set post. ref_of y \<noteq> ref_of x" by (metis imageI)
    then show ?thesis by simp
  qed
  have step: "snd (block_step isDiv NB x (c, m')) (ref_of x) = Some (if isDiv x then 0 else c)"
    using assms(2) by (simp add: block_step_def Let_def)
  have "snd (fold (block_step isDiv NB) (pre @ x # post) (0, m)) (ref_of x) =
          snd (block_step isDiv NB x (c, m')) (ref_of x)"
    using block_fold_other[OF post] by (simp add: pre)
  also note step
  finally show ?thesis by (simp add: c)
qed

lemma distinct_elements:
  "distinct_refs r \<Longrightarrow> distinct (map ref_of (elements_of r))"
  by (simp add: distinct_refs_def elements_of_def distinct_map_filter)

lemmas example_defs = example_doc_def chapter_c1_def outer_definition_def theorem_node_def
  section_s1_def inner_definition_def

lemma example_elements:
  "elements_of example_doc =
     [chapter_c1, outer_definition, theorem_node, section_s1, inner_definition]"
  by (simp add: elements_of_def nodes_of_def example_defs)

lemma example_nodes:
  "nodes_of example_doc =
     [example_doc, chapter_c1, outer_definition, theorem_node, section_s1, inner_definition]"
  by (simp add: nodes_of_def example_defs)

lemma example_distinct: "distinct_refs example_doc"
  by (simp add: distinct_refs_def example_nodes) (simp add: example_defs)

lemma block_number_at:
  assumes "distinct_refs (root s)" "elements_of (root s) = pre @ x # post" "name_of x \<in> NB"
  shows "xastBlockToNumber (generateBlockToNumberMap isDiv NB s) (ref_of x) =
           Some (if isDiv x then 0 else blocks_since_division isDiv NB (rev pre))"
  using block_fold_at[of pre x post NB isDiv "xastBlockToNumber s"] distinct_elements[OF assms(1)] assms(2,3)
  by (simp add: generateBlockToNumberMap_eq)

section \<open>What the passes leave alone\<close>

lemma generateNodeToDivisionIdMap_parentMap:
  "parentMap (generateNodeToDivisionIdMap t) = parentMap t"
  by (simp add: generateNodeToDivisionIdMap_eq)

lemma setRoot_parentMap_eq:
  assumes "\<forall>t. parentMap (generateToc t) = parentMap t"
      and "\<forall>t. parentMap (generateRefalbeInfoMap t) = parentMap t"
  shows "parentMap (setRoot generateToc generateRefalbeInfoMap r s) =
           parentMap (generateParentMap (s\<lparr>root := r\<rparr>))"
  using assms by (simp add: setRoot_def)

section \<open>Facts about the example documents\<close>

lemma other_nodes: "nodes_of other_doc = [other_doc, XElement 11 ''chapter'' None []]"
  by (simp add: nodes_of_def other_doc_def)

lemma example_refs: "map ref_of (nodes_of example_doc) = [0, 1, 2, 3, 4, 5]"
  by (simp add: example_nodes) (simp add: example_defs)

lemma other_refs: "map ref_of (nodes_of other_doc) = [10, 11]"
  by (simp add: other_nodes) (simp add: other_doc_def)

lemma example_other_disjoint:
  "ref_of ` set (nodes_of example_doc) \<inter> ref_of ` set (nodes_of other_doc) = {}"
  using example_refs other_refs by (simp flip: set_map)

lemma constructor_indices:
  "parentMap (constructor r0) = Map.empty \<and> xastNodeToTocDivisionId (constructor r0) = Map.empty \<and>
   xastBlockToNumber (constructor r0) = Map.empty \<and> tocInfoMap (constructor r0) = Map.empty \<and>
   xrefableMap (constructor r0) = Map.empty \<and> xastDivisions (constructor r0) = {} \<and>
   toc (constructor r0) = []"
  by (simp add: constructor_def)

lemma example_parent_of_chapter:
  "parentMap (generateParentMap ((constructor 9)\<lparr>root := example_doc\<rparr>)) (ref_of chapter_c1) =
     Some example_doc"
proof -
  have c: "chapter_c1 \<in> set (children example_doc)" by (simp add: example_doc_def)
  have m: "example_doc \<in> set (nodes_of (root ((constructor 9)\<lparr>root := example_doc\<rparr>)))"
    by (simp add: example_nodes)
  have d: "distinct_refs (root ((constructor 9)\<lparr>root := example_doc\<rparr>))"
    by (simp add: example_distinct)
  show ?thesis by (rule parentMap_child[OF d m c])
qed

section \<open>Facts for the queries\<close>

lemmas bare_defs = bare_doc_def bare_chapter_def bare_text_def

lemma bare_visits: "visit_order [] bare_doc =
   [(bare_doc, []), (bare_chapter, [bare_doc]), (bare_text, [bare_chapter, bare_doc])]"
  by (simp add: bare_defs)

lemma bare_distinct: "distinct_refs bare_doc"
  by (simp add: distinct_refs_def nodes_of_def bare_visits) (simp add: bare_defs)

lemma example_visits: "visit_order [] example_doc =
   [(example_doc, []), (chapter_c1, [example_doc]),
    (outer_definition, [chapter_c1, example_doc]), (theorem_node, [chapter_c1, example_doc]),
    (section_s1, [chapter_c1, example_doc]),
    (inner_definition, [section_s1, chapter_c1, example_doc])]"
  by (simp add: example_defs)

lemma divisionId_enclosing:
  assumes "distinct_refs (root s)" "(n, ps) \<in> set (visit_order [] (root s))"
      and "find (recorded_division s) (n # ps) = Some d"
  shows "xastNodeToTocDivisionId (generateNodeToDivisionIdMap s) (ref_of n) =
           Some (attr_or_empty ''xml:id'' d)"
  using divisionId_visited[OF assms(1,2)] assms(3)
  by (auto simp: division_id_for_def split: if_splits)

lemma block_number_unnumbered:
  assumes "distinct_refs (root s)" "n \<in> set (nodes_of (root s))" "name_of n \<notin> NB"
  shows "xastBlockToNumber (generateBlockToNumberMap isDiv NB s) (ref_of n) =
           xastBlockToNumber s (ref_of n)"
proof -
  have inj: "inj_on ref_of (set (nodes_of (root s)))"
    using assms(1) by (simp add: distinct_refs_def distinct_map)
  have "\<forall>x \<in> set (elements_of (root s)). ref_of x = ref_of n \<longrightarrow> name_of x \<notin> NB"
  proof (intro ballI impI)
    fix x assume "x \<in> set (elements_of (root s))" "ref_of x = ref_of n"
    then have "x = n" using inj assms(2) by (auto simp: elements_of_def dest: inj_onD)
    then show "name_of x \<notin> NB" using assms(3) by simp
  qed
  from block_fold_other[OF this] show ?thesis
    by (simp add: generateBlockToNumberMap_eq)
qed

lemma generateBlockToNumberMap_others:
  "xastNodeToTocDivisionId (generateBlockToNumberMap isDiv NB t) = xastNodeToTocDivisionId t"
  "tocInfoMap (generateBlockToNumberMap isDiv NB t) = tocInfoMap t"
  "root (generateBlockToNumberMap isDiv NB t) = root t"
  by (simp_all add: generateBlockToNumberMap_eq)

lemma generateNodeToDivisionIdMap_others:
  "xastBlockToNumber (generateNodeToDivisionIdMap t) = xastBlockToNumber t"
  "tocInfoMap (generateNodeToDivisionIdMap t) = tocInfoMap t"
  "root (generateNodeToDivisionIdMap t) = root t"
  "xastDivisions (generateNodeToDivisionIdMap t) = xastDivisions t"
  by (simp_all add: generateNodeToDivisionIdMap_eq)

lemma getTocItemInfo_block_pass:
  "getTocItemInfo (generateBlockToNumberMap isDiv NB t) n = getTocItemInfo t n"
  by (simp add: getTocItemInfo_def generateBlockToNumberMap_others split: option.splits)

lemma indexed_example_simps:
  "root indexed_example = example_doc" "xastDivisions indexed_example = {1, 4}"
  "xastNodeToTocDivisionId indexed_example = Map.empty"
  "xastBlockToNumber indexed_example = Map.empty"
  "tocInfoMap indexed_example = [''c1'' \<mapsto> chapter_info, ''s1'' \<mapsto> section_info]"
  by (simp_all add: indexed_example_def constructor_def)

lemma indexed_example_divisions:
  "recorded_division indexed_example chapter_c1" "recorded_division indexed_example section_s1"
  "\<not> recorded_division indexed_example example_doc"
  "\<not> recorded_division indexed_example outer_definition"
  "\<not> recorded_division indexed_example theorem_node"
  "\<not> recorded_division indexed_example inner_definition"
  by (simp_all add: recorded_division_def indexed_example_simps example_defs)

lemma example_ids:
  "attr_or_empty ''xml:id'' chapter_c1 = ''c1''" "attr_or_empty ''xml:id'' section_s1 = ''s1''"
  by (simp_all add: attr_or_empty_def attr_of_def example_defs)

lemma bare_state_simps:
  "root bare_state = bare_doc" "xastDivisions bare_state = {1}"
  "xastNodeToTocDivisionId bare_state = Map.empty"
  "xastBlockToNumber bare_state = Map.empty"
  "tocInfoMap bare_state = [''c1'' \<mapsto> chapter_info]"
  by (simp_all add: bare_state_def constructor_def)

lemma bare_state_divisions:
  "recorded_division bare_state bare_chapter" "\<not> recorded_division bare_state bare_text"
  "\<not> recorded_division bare_state bare_doc"
  by (simp_all add: recorded_division_def bare_state_simps bare_defs)

lemma bare_chapter_id:
  "attr_of ''xml:id'' bare_chapter = None" "attr_or_empty ''xml:id'' bare_chapter = []"
  by (simp_all add: attr_or_empty_def attr_of_def bare_defs)

section \<open>The slugger returns, and returns a new key\<close>

lemma digit_char_inj: "a < 10 \<Longrightarrow> b < 10 \<Longrightarrow> digit_char a = digit_char b \<Longrightarrow> a = b"
  by (simp add: digit_char_def nth_eq_iff_index_eq)

lemma digit_char_mem: "d < 10 \<Longrightarrow> digit_char d \<in> set ''0123456789''"
  unfolding digit_char_def by (rule nth_mem) simp

lemma string_of_nat_digits: "set (string_of_nat n) \<subseteq> set ''0123456789''"
proof (induction n rule: string_of_nat.induct)
  case (1 n)
  show ?case
  proof (cases "n < 10")
    case True
    then show ?thesis using digit_char_mem[of n] by (subst string_of_nat.simps) simp
  next
    case False
    then show ?thesis using 1 digit_char_mem[of "n mod 10"]
      by (subst string_of_nat.simps) simp
  qed
qed

lemma string_of_nat_nonempty: "string_of_nat n \<noteq> []"
  by (subst string_of_nat.simps) simp

lemma string_of_nat_inj: "string_of_nat m = string_of_nat n \<Longrightarrow> m = n"
proof (induction m arbitrary: n rule: string_of_nat.induct)
  case (1 m)
  show ?case
  proof (cases "m < 10")
    case m: True
    show ?thesis
    proof (cases "n < 10")
      case True
      with m "1.prems" show ?thesis
        by (simp add: string_of_nat.simps[of m] string_of_nat.simps[of n] digit_char_inj)
    next
      case False
      with m "1.prems" string_of_nat_nonempty[of "n div 10"] show ?thesis
        by (simp add: string_of_nat.simps[of m] string_of_nat.simps[of n] Cons_eq_append_conv)
    qed
  next
    case m: False
    show ?thesis
    proof (cases "n < 10")
      case True
      with m "1.prems" string_of_nat_nonempty[of "m div 10"] show ?thesis
        by (simp add: string_of_nat.simps[of m] string_of_nat.simps[of n] append_eq_Cons_conv)
    next
      case False
      with m "1.prems" have e: "string_of_nat (m div 10) = string_of_nat (n div 10)"
        and d: "digit_char (m mod 10) = digit_char (n mod 10)"
        by (simp_all add: string_of_nat.simps[of m] string_of_nat.simps[of n])
      from "1.IH"[OF m e] have "m div 10 = n div 10" .
      moreover from d have "m mod 10 = n mod 10" by (simp add: digit_char_inj)
      ultimately show ?thesis by (metis div_mult_mod_eq)
    qed
  qed
qed

lemma suffix_inj: "inj (\<lambda>k. orig @ ''-'' @ string_of_nat k)"
  by (rule injI) (simp add: string_of_nat_inj)

lemma slug_loop_result:
  assumes "slug_loop occ orig res = Some y"
  shows "snd y (fst y) = None \<and> dom (snd y) = dom occ \<and>
     (fst y = res \<or> (\<exists>k. fst y = orig @ ''-'' @ string_of_nat k)) \<and>
     (occ res = None \<longrightarrow> fst y = res)"
  using assms
proof (induction occ orig res y rule: slug_loop.raw_induct[rotated 1, consumes 1, case_names step])
  case (step f occ orig res y)
  note 1 = step.IH step.hyps
  show ?case
  proof (cases "occ res = None")
    case True
    with 1(2) show ?thesis by auto
  next
    case False
    with 1(2) obtain n where n: "occ orig = Some n"
      and f: "f (occ(orig \<mapsto> n + 1)) orig (orig @ ''-'' @ string_of_nat (n + 1)) = Some y"
      by (auto split: option.splits)
    have "orig \<in> dom occ" using n by (rule domI)
    then have d: "dom (occ(orig \<mapsto> n + 1)) = dom occ" by (simp add: insert_absorb)
    from 1(1)[OF f] have
      a: "snd y (fst y) = None" and b: "dom (snd y) = dom (occ(orig \<mapsto> n + 1))"
      and c: "fst y = orig @ ''-'' @ string_of_nat (n + 1) \<or>
              (\<exists>k. fst y = orig @ ''-'' @ string_of_nat k)"
      by blast+
    from c have "\<exists>k. fst y = orig @ ''-'' @ string_of_nat k" by blast
    then show ?thesis using a b d False by auto
  qed
qed

lemma slug_loop_steps:
  assumes bound: "\<forall>k. occ (orig @ ''-'' @ string_of_nat k) \<noteq> None \<longrightarrow> k < b"
      and n: "occ orig = Some n" and d: "b - n = d"
  shows "\<exists>y. slug_loop occ orig (orig @ ''-'' @ string_of_nat n) = Some y"
  using assms
proof (induction d arbitrary: n occ)
  case 0
  then have "occ (orig @ ''-'' @ string_of_nat n) = None" by force
  then show ?case by (subst slug_loop.simps) simp
next
  case (Suc d)
  show ?case
  proof (cases "occ (orig @ ''-'' @ string_of_nat n) = None")
    case True
    then show ?thesis by (subst slug_loop.simps) simp
  next
    case False
    let ?occ = "occ(orig \<mapsto> n + 1)"
    have b: "\<forall>k. ?occ (orig @ ''-'' @ string_of_nat k) \<noteq> None \<longrightarrow> k < b"
      using Suc.prems(1) by simp
    have "\<exists>y. slug_loop ?occ orig (orig @ ''-'' @ string_of_nat (n + 1)) = Some y"
      by (rule Suc.IH[OF b]) (use Suc.prems(3) in simp_all)
    then show ?thesis using False Suc.prems(2) by (subst slug_loop.simps) simp
  qed
qed

lemma suffix_bound:
  assumes "finite (dom occ)"
  shows "\<exists>b. \<forall>k. occ (orig @ ''-'' @ string_of_nat k) \<noteq> None \<longrightarrow> k < b"
proof -
  let ?S = "(\<lambda>k. orig @ ''-'' @ string_of_nat k) -` dom occ"
  have "finite ?S" using assms suffix_inj by (rule finite_vimageI)
  then obtain b where "\<forall>k \<in> ?S. k < b" using finite_nat_set_iff_bounded by blast
  then show ?thesis by (auto simp: dom_def)
qed

lemma slug_loop_terminates:
  assumes "finite (dom occ)"
  shows "\<exists>y. slug_loop occ orig orig = Some y"
proof (cases "occ orig")
  case None
  then show ?thesis by (subst slug_loop.simps) simp
next
  case (Some n)
  let ?occ = "occ(orig \<mapsto> n + 1)"
  have "finite (dom ?occ)" using assms by simp
  from suffix_bound[OF this, of orig] obtain b where
    b: "\<forall>k. ?occ (orig @ ''-'' @ string_of_nat k) \<noteq> None \<longrightarrow> k < b" by blast
  have "\<exists>y. slug_loop ?occ orig (orig @ ''-'' @ string_of_nat (n + 1)) = Some y"
    by (rule slug_loop_steps[OF b]) simp_all
  then show ?thesis using Some by (subst slug_loop.simps) simp
qed

lemma slug_value_safe: "\<not> rx CHR ''-'' \<Longrightarrow> slug_safe rx (slug_value rx str)"
  by (auto simp: slug_safe_def slug_value_def)

lemma slug_value_fixed: "slug_safe rx str \<Longrightarrow> slug_value rx str = str"
proof -
  assume a: "slug_safe rx str"
  then have "filter (\<lambda>c. \<not> rx c) str = str" by (simp add: slug_safe_def)
  moreover have "map (\<lambda>c. if c = CHR '' '' then CHR ''-'' else c) str = str"
    using a by (simp add: slug_safe_def map_idI)
  ultimately show ?thesis by (simp add: slug_value_def)
qed

lemma suffix_safe:
  assumes "keeps_suffix rx" "slug_safe rx orig"
  shows "slug_safe rx (orig @ ''-'' @ string_of_nat k)"
proof -
  have "\<forall>c \<in> set (string_of_nat k). \<not> rx c \<and> c \<noteq> CHR '' ''"
    using string_of_nat_digits[of k] assms(1) by (auto simp: keeps_suffix_def)
  then show ?thesis using assms by (auto simp: slug_safe_def keeps_suffix_def)
qed

lemma slugger_slug_terminates:
  "finite (dom occ) \<Longrightarrow> \<exists>r occ'. slugger_slug rx occ str = Some (r, occ')"
  using slug_loop_terminates[of occ "slug_value rx str"]
  by (auto simp: slugger_slug_def Let_def)

lemma slugger_slug_result:
  assumes "slugger_slug rx occ str = Some (r, occ')"
  shows "occ r = None" and "dom occ' = insert r (dom occ)"
    and "occ (slug_value rx str) = None \<Longrightarrow> r = slug_value rx str"
    and "keeps_suffix rx \<Longrightarrow> slug_safe rx r"
proof -
  from assms obtain occ1 where
    l: "slug_loop occ (slug_value rx str) (slug_value rx str) = Some (r, occ1)"
    and o: "occ' = occ1(r \<mapsto> 0)"
    by (auto simp: slugger_slug_def Let_def split: option.splits)
  from slug_loop_result[OF l] have
    1: "occ1 r = None" and 2: "dom occ1 = dom occ"
    and 3: "r = slug_value rx str \<or> (\<exists>k. r = slug_value rx str @ ''-'' @ string_of_nat k)"
    and 4: "occ (slug_value rx str) = None \<longrightarrow> r = slug_value rx str"
    by simp_all
  from 1 2 show "occ r = None" by (metis domIff)
  from 2 o show "dom occ' = insert r (dom occ)" by simp
  from 4 show "occ (slug_value rx str) = None \<Longrightarrow> r = slug_value rx str" by simp
  show "slug_safe rx r" if k: "keeps_suffix rx"
  proof -
    have "slug_safe rx (slug_value rx str)"
      using k by (simp add: keeps_suffix_def slug_value_safe)
    then show ?thesis using 3 suffix_safe[OF k] by auto
  qed
qed

section \<open>The allocator keeps its invariant\<close>

lemma drain_result:
  "finite (dom occ) \<Longrightarrow>
     \<exists>occ'. drain rx idents occ = Some occ' \<and> finite (dom occ') \<and> dom occ \<subseteq> dom occ' \<and>
       (\<forall>d \<in> set idents. d \<in> dom occ' \<or> \<not> slug_safe rx d)"
proof (induction idents arbitrary: occ)
  case Nil
  then show ?case by simp
next
  case (Cons d idents)
  from slugger_slug_terminates[OF Cons.prems, of rx d] obtain r occ1 where
    s: "slugger_slug rx occ d = Some (r, occ1)" by blast
  have dom1: "dom occ1 = insert r (dom occ)" by (rule slugger_slug_result(2)[OF s])
  then have fin1: "finite (dom occ1)" using Cons.prems by simp
  have here: "d \<in> dom occ1 \<or> \<not> slug_safe rx d"
  proof (cases "slug_safe rx d")
    case False
    then show ?thesis by simp
  next
    case True
    then have fx: "slug_value rx d = d" by (rule slug_value_fixed)
    show ?thesis
    proof (cases "occ d")
      case None
      then have "r = d" using slugger_slug_result(3)[OF s] fx by simp
      then show ?thesis using dom1 by simp
    next
      case (Some n)
      then show ?thesis using dom1 by auto
    qed
  qed
  from Cons.IH[OF fin1] obtain occ' where
    dr: "drain rx idents occ1 = Some occ'" and fin: "finite (dom occ')"
    and sub: "dom occ1 \<subseteq> dom occ'"
    and rest: "\<forall>d \<in> set idents. d \<in> dom occ' \<or> \<not> slug_safe rx d" by blast
  have "drain rx (d # idents) occ = Some occ'" using s dr by simp
  moreover have "dom occ \<subseteq> dom occ'" using dom1 sub by auto
  moreover have "\<forall>x \<in> set (d # idents). x \<in> dom occ' \<or> \<not> slug_safe rx x"
    using here sub rest by auto
  ultimately show ?case using fin by blast
qed

lemma declareId_inv:
  assumes "alloc_inv rx s D G" "declareId d s = (b, s1)"
  shows "alloc_inv rx s1 (insert d D) G"
  using assms
  by (auto simp: alloc_inv_def declareId_def split: if_splits option.splits)

lemma getUniqueId_inv:
  assumes k: "keeps_suffix rx" and inv: "alloc_inv rx s D G"
  shows "\<exists>u s1. getUniqueId rx p s = Some (u, s1) \<and> u \<notin> D \<and> u \<notin> G \<and>
           alloc_inv rx s1 D (insert u G)"
proof -
  define nm where "nm = (case p of None \<Rightarrow> ''auto-generated-id''
               | Some q \<Rightarrow> if q \<noteq> [] then q else ''auto-generated-id'')"
  from inv have fin: "finite (dom (slugger s))" and G: "G \<subseteq> dom (slugger s)"
    and D: "\<forall>d \<in> D. d \<in> set (declaredIdCache s) \<or> d \<in> dom (slugger s) \<or> \<not> slug_safe rx d"
    by (simp_all add: alloc_inv_def)
  from drain_result[OF fin, of rx "declaredIdCache s"] obtain occ1 where
    dr: "drain rx (declaredIdCache s) (slugger s) = Some occ1" and fin1: "finite (dom occ1)"
    and sub: "dom (slugger s) \<subseteq> dom occ1"
    and cached: "\<forall>d \<in> set (declaredIdCache s). d \<in> dom occ1 \<or> \<not> slug_safe rx d" by blast
  obtain s1 where
    s1: "(if declaredIdCache s \<noteq> []
             then map_option (\<lambda>occurrences. s\<lparr>slugger := occurrences, declaredIdCache := []\<rparr>)
                    (drain rx (declaredIdCache s) (slugger s))
             else Some s) = Some s1"
    and sl1: "slugger s1 = occ1" and c1: "declaredIdCache s1 = []"
  proof (cases "declaredIdCache s")
    case Nil
    with dr have "occ1 = slugger s" by simp
    with Nil that[of s] show ?thesis by simp
  next
    case (Cons a list)
    with dr that[of "s\<lparr>slugger := occ1, declaredIdCache := []\<rparr>"] show ?thesis by simp
  qed
  from slugger_slug_terminates[OF fin1, of rx nm] obtain u occ2 where
    sl: "slugger_slug rx occ1 nm = Some (u, occ2)" by blast
  have new: "occ1 u = None" by (rule slugger_slug_result(1)[OF sl])
  have dom2: "dom occ2 = insert u (dom occ1)" by (rule slugger_slug_result(2)[OF sl])
  have safe: "slug_safe rx u" by (rule slugger_slug_result(4)[OF sl k])
  have res: "getUniqueId rx p s = Some (u, s1\<lparr>slugger := occ2\<rparr>)"
    unfolding getUniqueId_def s1 nm_def[symmetric] using sl by (simp add: sl1)
  have D1: "\<forall>d \<in> D. d \<in> dom occ1 \<or> \<not> slug_safe rx d"
  proof
    fix d assume "d \<in> D"
    with D have "d \<in> set (declaredIdCache s) \<or> d \<in> dom (slugger s) \<or> \<not> slug_safe rx d" by (rule bspec)
    then show "d \<in> dom occ1 \<or> \<not> slug_safe rx d" using cached sub by blast
  qed
  have nu: "u \<notin> dom occ1" using new by (simp add: domIff)
  have uD: "u \<notin> D" using D1 safe nu by blast
  have uG: "u \<notin> G" using G sub nu by blast
  have "G \<subseteq> dom occ1" using G sub by (rule subset_trans)
  then have G2: "insert u G \<subseteq> dom occ2" unfolding dom2 by (simp add: subset_insertI2)
  have D2: "\<forall>d \<in> D. d \<in> dom occ2 \<or> \<not> slug_safe rx d"
    unfolding dom2 using D1 by simp
  have "finite (dom occ2)" using fin1 dom2 by simp
  then have "alloc_inv rx (s1\<lparr>slugger := occ2\<rparr>) D (insert u G)"
    using G2 D2 by (simp add: alloc_inv_def c1)
  then show ?thesis using res uD uG by blast
qed

lemma run_fresh:
  assumes "keeps_suffix rx"
  shows "alloc_inv rx s D G \<Longrightarrow>
     \<exists>replies s'. run rx calls s = Some (replies, s') \<and> length replies = length calls \<and>
       (\<forall>j < length calls. \<forall>u. replies ! j = Unique u \<longrightarrow>
          u \<notin> D \<and> u \<notin> G \<and> (\<forall>i < j. replies ! i \<noteq> Unique u \<and> calls ! i \<noteq> DeclareId u))"
proof (induction calls arbitrary: s D G)
  case Nil
  then show ?case by simp
next
  case (Cons c calls)
  show ?case
  proof (cases c)
    case (DeclareId d)
    obtain b s1 where de: "declareId d s = (b, s1)" by force
    from declareId_inv[OF Cons.prems de] have "alloc_inv rx s1 (insert d D) G" .
    from Cons.IH[OF this] obtain replies s' where
      r: "run rx calls s1 = Some (replies, s')" and len: "length replies = length calls"
      and fr: "\<forall>j < length calls. \<forall>u. replies ! j = Unique u \<longrightarrow>
          u \<notin> insert d D \<and> u \<notin> G \<and> (\<forall>i < j. replies ! i \<noteq> Unique u \<and> calls ! i \<noteq> DeclareId u)"
      by blast
    have run: "run rx (c # calls) s = Some (Declared b # replies, s')"
      using de r by (simp add: DeclareId)
    have "\<forall>j < length (c # calls). \<forall>u. (Declared b # replies) ! j = Unique u \<longrightarrow>
          u \<notin> D \<and> u \<notin> G \<and>
          (\<forall>i < j. (Declared b # replies) ! i \<noteq> Unique u \<and> (c # calls) ! i \<noteq> DeclareId u)"
    proof (intro allI impI)
      fix j u assume j: "j < length (c # calls)" and u: "(Declared b # replies) ! j = Unique u"
      then obtain j' where j': "j = Suc j'" "j' < length calls" "replies ! j' = Unique u"
        by (cases j) auto
      from fr j' have a: "u \<noteq> d" "u \<notin> D" "u \<notin> G"
        and b: "\<forall>i < j'. replies ! i \<noteq> Unique u \<and> calls ! i \<noteq> DeclareId u" by auto
      have "(Declared b # replies) ! i \<noteq> Unique u \<and> (c # calls) ! i \<noteq> DeclareId u"
        if "i < j" for i
        using that a b j'(1) DeclareId by (cases i) auto
      then show "u \<notin> D \<and> u \<notin> G \<and>
          (\<forall>i < j. (Declared b # replies) ! i \<noteq> Unique u \<and> (c # calls) ! i \<noteq> DeclareId u)"
        using a by blast
    qed
    then show ?thesis using run len by auto
  next
    case (GetUniqueId p)
    from getUniqueId_inv[OF assms Cons.prems, of p] obtain v s1 where
      g: "getUniqueId rx p s = Some (v, s1)" and vD: "v \<notin> D" and vG: "v \<notin> G"
      and inv1: "alloc_inv rx s1 D (insert v G)" by blast
    from Cons.IH[OF inv1] obtain replies s' where
      r: "run rx calls s1 = Some (replies, s')" and len: "length replies = length calls"
      and fr: "\<forall>j < length calls. \<forall>u. replies ! j = Unique u \<longrightarrow>
          u \<notin> D \<and> u \<notin> insert v G \<and> (\<forall>i < j. replies ! i \<noteq> Unique u \<and> calls ! i \<noteq> DeclareId u)"
      by blast
    have run: "run rx (c # calls) s = Some (Unique v # replies, s')"
      using g r by (simp add: GetUniqueId)
    have "\<forall>j < length (c # calls). \<forall>u. (Unique v # replies) ! j = Unique u \<longrightarrow>
          u \<notin> D \<and> u \<notin> G \<and>
          (\<forall>i < j. (Unique v # replies) ! i \<noteq> Unique u \<and> (c # calls) ! i \<noteq> DeclareId u)"
    proof (intro allI impI)
      fix j u assume j: "j < length (c # calls)" and u: "(Unique v # replies) ! j = Unique u"
      show "u \<notin> D \<and> u \<notin> G \<and>
          (\<forall>i < j. (Unique v # replies) ! i \<noteq> Unique u \<and> (c # calls) ! i \<noteq> DeclareId u)"
      proof (cases j)
        case 0
        with u vD vG show ?thesis by simp
      next
        case (Suc j')
        with j u have j': "j' < length calls" "replies ! j' = Unique u" by auto
        from fr j' have a: "u \<noteq> v" "u \<notin> D" "u \<notin> G"
          and b: "\<forall>i < j'. replies ! i \<noteq> Unique u \<and> calls ! i \<noteq> DeclareId u" by auto
        have "(Unique v # replies) ! i \<noteq> Unique u \<and> (c # calls) ! i \<noteq> DeclareId u"
          if "i < j" for i
          using that a b Suc GetUniqueId by (cases i) auto
        then show ?thesis using a by blast
      qed
    qed
    then show ?thesis using run len by auto
  qed
qed

lemma constructor_alloc_inv: "alloc_inv rx (constructor r0) {} {}"
  by (simp add: alloc_inv_def constructor_def)

lemma ascii_rx_keeps_suffix: "keeps_suffix ascii_rx"
  by (simp add: keeps_suffix_def ascii_rx_def)

lemma example_calls_replies:
  "map_option fst (run ascii_rx example_calls (constructor 9)) =
     Some [Unique ''foo'', Declared False, Declared False, Unique ''foo-2'', Unique ''bar-1'']"
  by code_simp

section \<open>Uniqueness of identifiers\<close>

text \<open>
  Claim C1.  For every sequence of \<^verbatim>\<open>declareId\<close> and \<^verbatim>\<open>getUniqueId\<close> calls on a new
  \<^verbatim>\<open>PretextState\<close>, every call returns, and an identifier returned by \<^verbatim>\<open>getUniqueId\<close> differs
  from every identifier returned by an earlier \<^verbatim>\<open>getUniqueId\<close> and from every identifier
  passed to an earlier \<^verbatim>\<open>declareId\<close>, whether the declaration came before or after earlier
  generated ids.  The slugger's regular expression matches neither the hyphen nor a
  digit.
\<close>

theorem getUniqueId_fresh:
  assumes "keeps_suffix rx"
  shows "\<exists>replies s'. run rx calls (constructor r0) = Some (replies, s') \<and>
           length replies = length calls \<and>
           (\<forall>j < length calls. \<forall>u. replies ! j = Unique u \<longrightarrow>
              (\<forall>i < j. replies ! i \<noteq> Unique u \<and> calls ! i \<noteq> DeclareId u))"
  using run_fresh[OF assms constructor_alloc_inv, of calls r0] by blast

text \<open>
  A run with the ASCII character class: \<^verbatim>\<open>foo\<close> is generated, then \<^verbatim>\<open>foo\<close> and \<^verbatim>\<open>bar\<close> are
  declared, and the next ids for \<^verbatim>\<open>foo\<close> and \<^verbatim>\<open>bar\<close> are \<^verbatim>\<open>foo-2\<close> and \<^verbatim>\<open>bar-1\<close>.
\<close>

theorem getUniqueId_fresh_witness:
  "keeps_suffix ascii_rx \<and>
   (\<exists>replies s'. run ascii_rx example_calls (constructor 9) = Some (replies, s') \<and>
      replies = [Unique ''foo'', Declared False, Declared False, Unique ''foo-2'', Unique ''bar-1''] \<and>
      (\<forall>j < length example_calls. \<forall>u. replies ! j = Unique u \<longrightarrow>
         (\<forall>i < j. replies ! i \<noteq> Unique u \<and> example_calls ! i \<noteq> DeclareId u)))"
proof -
  from getUniqueId_fresh[OF ascii_rx_keeps_suffix, of example_calls 9] obtain replies s' where
    r: "run ascii_rx example_calls (constructor 9) = Some (replies, s')"
    and f: "\<forall>j < length example_calls. \<forall>u. replies ! j = Unique u \<longrightarrow>
         (\<forall>i < j. replies ! i \<noteq> Unique u \<and> example_calls ! i \<noteq> DeclareId u)"
    by blast
  from r example_calls_replies have
    "replies = [Unique ''foo'', Declared False, Declared False, Unique ''foo-2'', Unique ''bar-1'']"
    by simp
  with r f ascii_rx_keeps_suffix show ?thesis by blast
qed

text \<open>
  Claim C2 does not hold of the code.  The slugger records a newly issued id with the
  count 0, and \<^verbatim>\<open>declareId\<close> tests \<^verbatim>\<open>occurrences[id] > 0\<close>: declaring an id that
  \<^verbatim>\<open>getUniqueId\<close> has just returned answers \<^verbatim>\<open>false\<close>, and so does declaring an id a second
  time once the cache has been drained by a \<^verbatim>\<open>getUniqueId\<close> call in between.
\<close>

theorem declareId_after_drain:
  "map_option fst (run ascii_rx [GetUniqueId (Some ''foo''), DeclareId ''foo''] (constructor 9)) =
     Some [Unique ''foo'', Declared False] \<and>
   map_option fst
     (run ascii_rx [DeclareId ''foo'', GetUniqueId None, DeclareId ''foo''] (constructor 9)) =
     Some [Declared False, Unique ''auto-generated-id'', Declared False]"
  by code_simp

section \<open>The parent index\<close>

text \<open>
  Claim C4.  After \<^verbatim>\<open>setRoot(root)\<close> on a state whose parent map has no entry for the root
  (as after construction), every node of the tree other than the root has an immediate
  parent in the tree and the parent map sends it to that parent, and the root has no
  entry.  The tree has no node object twice, and the ToC and cross-reference passes,
  which are outside this module, do not write the parent map.
\<close>

theorem setRoot_parentMap:
  assumes toc: "\<forall>t. parentMap (generateToc t) = parentMap t"
      and refs: "\<forall>t. parentMap (generateRefalbeInfoMap t) = parentMap t"
      and dist: "distinct_refs r"
      and fresh: "parentMap s (ref_of r) = None"
  shows "(\<forall>n \<in> set (nodes_of r). n \<noteq> r \<longrightarrow>
            (\<exists>p \<in> set (nodes_of r). n \<in> set (children p) \<and>
               parentMap (setRoot generateToc generateRefalbeInfoMap r s) (ref_of n) = Some p)) \<and>
         parentMap (setRoot generateToc generateRefalbeInfoMap r s) (ref_of r) = None"
proof -
  let ?s = "s\<lparr>root := r\<rparr>"
  have eq: "parentMap (setRoot generateToc generateRefalbeInfoMap r s) = parentMap (generateParentMap ?s)"
    using toc refs by (rule setRoot_parentMap_eq)
  have d: "distinct_refs (root ?s)" using dist by simp
  have 1: "\<exists>p \<in> set (nodes_of r). n \<in> set (children p) \<and>
               parentMap (generateParentMap ?s) (ref_of n) = Some p"
    if "n \<in> set (nodes_of r)" "n \<noteq> r" for n
  proof -
    from non_root_has_parent[OF that] obtain p where
      p: "p \<in> set (nodes_of r)" "n \<in> set (children p)" by blast
    with parentMap_child[OF d, of p n] show ?thesis by auto
  qed
  have 3: "parentMap (generateParentMap ?s) (ref_of r) = None"
    using parentMap_root[OF d] fresh by simp
  show ?thesis unfolding eq using 1 3 by blast
qed

text \<open>The example document, installed in a fresh state.\<close>

theorem setRoot_parentMap_witness:
  "(\<forall>t. parentMap (generateNodeToDivisionIdMap t) = parentMap t) \<and>
   distinct_refs example_doc \<and> parentMap (constructor 9) (ref_of example_doc) = None \<and>
   inner_definition \<in> set (nodes_of example_doc) \<and> inner_definition \<noteq> example_doc \<and>
   (\<exists>p \<in> set (nodes_of example_doc). inner_definition \<in> set (children p) \<and>
      parentMap (setRoot generateNodeToDivisionIdMap (\<lambda>t. t) example_doc (constructor 9))
        (ref_of inner_definition) = Some p) \<and>
   parentMap (setRoot generateNodeToDivisionIdMap (\<lambda>t. t) example_doc (constructor 9))
     (ref_of example_doc) = None"
proof -
  have h: "parentMap (constructor 9) (ref_of example_doc) = None"
    by (simp add: constructor_def)
  have i: "inner_definition \<in> set (nodes_of example_doc)" "inner_definition \<noteq> example_doc"
    by (simp_all add: example_nodes) (simp add: example_defs)
  show ?thesis
    using setRoot_parentMap[of generateNodeToDivisionIdMap "\<lambda>t. t" example_doc "constructor 9"]
      example_distinct h i
    by (simp add: generateNodeToDivisionIdMap_parentMap)
qed

text \<open>
  Claim C5, as stated, fails: if \<^verbatim>\<open>setRoot\<close> fully replaced the indices, then after
  \<^verbatim>\<open>setRoot(r1)\<close> and \<^verbatim>\<open>setRoot(r2)\<close> with disjoint trees the parent map would have no entry
  keyed by a node of \<^verbatim>\<open>r1\<close>.  \<^verbatim>\<open>_generateParentMap\<close> only adds entries, so the chapter of the
  first document keeps its parent.
\<close>

theorem setRoot_again_counterexample:
  "\<not> (\<forall>generateToc generateRefalbeInfoMap r1 r2 s.
        (\<forall>t. parentMap (generateToc t) = parentMap t) \<and>
        (\<forall>t. parentMap (generateRefalbeInfoMap t) = parentMap t) \<and>
        ref_of ` set (nodes_of r1) \<inter> ref_of ` set (nodes_of r2) = {} \<longrightarrow>
        (\<forall>n \<in> set (nodes_of r1).
           parentMap (setRoot generateToc generateRefalbeInfoMap r2
                       (setRoot generateToc generateRefalbeInfoMap r1 s)) (ref_of n) = None))"
proof
  assume a: "\<forall>generateToc generateRefalbeInfoMap r1 r2 s.
        (\<forall>t. parentMap (generateToc t) = parentMap t) \<and>
        (\<forall>t. parentMap (generateRefalbeInfoMap t) = parentMap t) \<and>
        ref_of ` set (nodes_of r1) \<inter> ref_of ` set (nodes_of r2) = {} \<longrightarrow>
        (\<forall>n \<in> set (nodes_of r1).
           parentMap (setRoot generateToc generateRefalbeInfoMap r2
                       (setRoot generateToc generateRefalbeInfoMap r1 s)) (ref_of n) = None)"
  let ?s1 = "setRoot generateNodeToDivisionIdMap (\<lambda>t. t) example_doc (constructor 9)"
  let ?s2 = "setRoot generateNodeToDivisionIdMap (\<lambda>t. t) other_doc ?s1"
  have p: "\<forall>t. parentMap (generateNodeToDivisionIdMap t) = parentMap t"
    by (simp add: generateNodeToDivisionIdMap_parentMap)
  have q: "\<forall>t::pretext_state. parentMap ((\<lambda>t. t) t) = parentMap t" by simp
  have c: "chapter_c1 \<in> set (nodes_of example_doc)" by (simp add: example_nodes)
  have "\<forall>n \<in> set (nodes_of example_doc). parentMap ?s2 (ref_of n) = None"
    using a[THEN spec[where x = generateNodeToDivisionIdMap], THEN spec[where x = "\<lambda>t. t"],
            THEN spec[where x = example_doc], THEN spec[where x = other_doc],
            THEN spec[where x = "constructor 9"]] p example_other_disjoint
    by simp
  then have none: "parentMap ?s2 (ref_of chapter_c1) = None"
    using c by (rule bspec)
  have out: "ref_of chapter_c1 \<notin> ref_of ` set (nodes_of (root (?s1\<lparr>root := other_doc\<rparr>)))"
    using example_other_disjoint c by auto
  have "parentMap ?s2 (ref_of chapter_c1) = parentMap ?s1 (ref_of chapter_c1)"
    using parentMap_outside[OF out] by (simp add: setRoot_parentMap_eq[OF p q])
  also have "\<dots> = Some example_doc"
    using example_parent_of_chapter by (simp add: setRoot_parentMap_eq[OF p q])
  finally show False using none by simp
qed

text \<open>
  Claim C5, amended.  All indices are empty at construction.  When \<^verbatim>\<open>setRoot\<close> is called
  again with a tree that shares no node with the earlier one, the parent map is not
  replaced: every entry keyed by a node of the earlier tree is kept as it was.  (The ToC
  and cross-reference passes are outside this module and are taken not to write the
  parent map.)
\<close>

theorem setRoot_again_keeps_parents:
  assumes toc: "\<forall>t. parentMap (generateToc t) = parentMap t"
      and refs: "\<forall>t. parentMap (generateRefalbeInfoMap t) = parentMap t"
      and disj: "ref_of ` set (nodes_of r1) \<inter> ref_of ` set (nodes_of r2) = {}"
  shows "parentMap (constructor r0) = Map.empty \<and>
         xastNodeToTocDivisionId (constructor r0) = Map.empty \<and>
         xastBlockToNumber (constructor r0) = Map.empty \<and>
         tocInfoMap (constructor r0) = Map.empty \<and>
         xrefableMap (constructor r0) = Map.empty \<and>
         (\<forall>n \<in> set (nodes_of r1).
            parentMap (setRoot generateToc generateRefalbeInfoMap r2
                        (setRoot generateToc generateRefalbeInfoMap r1 s)) (ref_of n) =
            parentMap (setRoot generateToc generateRefalbeInfoMap r1 s) (ref_of n))"
proof -
  let ?s1 = "setRoot generateToc generateRefalbeInfoMap r1 s"
  have "parentMap (setRoot generateToc generateRefalbeInfoMap r2 ?s1) (ref_of n) =
          parentMap ?s1 (ref_of n)" if "n \<in> set (nodes_of r1)" for n
  proof -
    from that disj have "ref_of n \<notin> ref_of ` set (nodes_of (root (?s1\<lparr>root := r2\<rparr>)))"
      by auto
    from parentMap_outside[OF this] show ?thesis
      by (simp add: setRoot_parentMap_eq[OF toc refs])
  qed
  then show ?thesis using constructor_indices[of r0] by blast
qed

text \<open>The example document followed by the second document.\<close>

theorem setRoot_again_keeps_parents_witness:
  "(\<forall>t. parentMap (generateNodeToDivisionIdMap t) = parentMap t) \<and>
   ref_of ` set (nodes_of example_doc) \<inter> ref_of ` set (nodes_of other_doc) = {} \<and>
   chapter_c1 \<in> set (nodes_of example_doc) \<and>
   parentMap (setRoot generateNodeToDivisionIdMap (\<lambda>t. t) other_doc
               (setRoot generateNodeToDivisionIdMap (\<lambda>t. t) example_doc (constructor 9)))
     (ref_of chapter_c1) = Some example_doc"
proof -
  let ?s1 = "setRoot generateNodeToDivisionIdMap (\<lambda>t. t) example_doc (constructor 9)"
  let ?s2 = "setRoot generateNodeToDivisionIdMap (\<lambda>t. t) other_doc ?s1"
  have p: "\<forall>t. parentMap (generateNodeToDivisionIdMap t) = parentMap t"
    by (simp add: generateNodeToDivisionIdMap_parentMap)
  have q: "\<forall>t::pretext_state. parentMap ((\<lambda>t. t) t) = parentMap t" by simp
  have c: "chapter_c1 \<in> set (nodes_of example_doc)" by (simp add: example_nodes)
  have "\<forall>n \<in> set (nodes_of example_doc). parentMap ?s2 (ref_of n) = parentMap ?s1 (ref_of n)"
    using setRoot_again_keeps_parents[OF p q example_other_disjoint, of 9 "constructor 9"]
    by simp
  then have "parentMap ?s2 (ref_of chapter_c1) = parentMap ?s1 (ref_of chapter_c1)"
    using c by (rule bspec)
  also have "\<dots> = Some example_doc"
    using example_parent_of_chapter by (simp add: setRoot_parentMap_eq[OF p q])
  finally show ?thesis using p c example_other_disjoint by simp
qed

section \<open>Block numbering\<close>

text \<open>
  Claim C3.  A numbered block gets the number of numbered blocks visited, in pre-order,
  since the most recent division (0 if it is itself a division); the counter restarts at
  every division.  In the example document the outer definition gets 0, the theorem 1,
  and the inner definition 0 exactly when the section is classified as a division (and 2
  otherwise).  The general part needs a tree without repeated node objects; the example
  needs \<^verbatim>\<open>definition\<close> and \<^verbatim>\<open>theorem\<close> to be numbered blocks that are not divisions, and
  \<^verbatim>\<open>chapter\<close> and \<^verbatim>\<open>section\<close> not to be numbered blocks.
\<close>

theorem block_numbering:
  "(distinct_refs (root s) \<and> elements_of (root s) = pre @ x # post \<and> name_of x \<in> NB \<longrightarrow>
      xastBlockToNumber (generateBlockToNumberMap isDiv NB s) (ref_of x) =
        Some (if isDiv x then 0 else blocks_since_division isDiv NB (rev pre))) \<and>
   (root s = example_doc \<and> ''definition'' \<in> NB \<and> ''theorem'' \<in> NB \<and>
    ''chapter'' \<notin> NB \<and> ''section'' \<notin> NB \<and>
    \<not> isDiv outer_definition \<and> \<not> isDiv theorem_node \<and> \<not> isDiv inner_definition \<longrightarrow>
      xastBlockToNumber (generateBlockToNumberMap isDiv NB s) (ref_of outer_definition) = Some 0 \<and>
      xastBlockToNumber (generateBlockToNumberMap isDiv NB s) (ref_of theorem_node) = Some 1 \<and>
      xastBlockToNumber (generateBlockToNumberMap isDiv NB s) (ref_of inner_definition) =
        Some (if isDiv section_s1 then 0 else 2))"
proof (intro conjI impI)
  assume "distinct_refs (root s) \<and> elements_of (root s) = pre @ x # post \<and> name_of x \<in> NB"
  then show "xastBlockToNumber (generateBlockToNumberMap isDiv NB s) (ref_of x) =
        Some (if isDiv x then 0 else blocks_since_division isDiv NB (rev pre))"
    using block_number_at by blast
next
  assume a: "root s = example_doc \<and> ''definition'' \<in> NB \<and> ''theorem'' \<in> NB \<and>
    ''chapter'' \<notin> NB \<and> ''section'' \<notin> NB \<and>
    \<not> isDiv outer_definition \<and> \<not> isDiv theorem_node \<and> \<not> isDiv inner_definition"
  then have d: "distinct_refs (root s)" by (simp add: example_distinct)
  have nm: "name_of chapter_c1 = ''chapter''" "name_of outer_definition = ''definition''"
    "name_of theorem_node = ''theorem''" "name_of section_s1 = ''section''"
    "name_of inner_definition = ''definition''"
    by (simp_all add: example_defs)
  have e1: "elements_of (root s) = [chapter_c1] @ outer_definition # [theorem_node, section_s1, inner_definition]"
    using a by (simp add: example_elements)
  have e2: "elements_of (root s) = [chapter_c1, outer_definition] @ theorem_node # [section_s1, inner_definition]"
    using a by (simp add: example_elements)
  have e3: "elements_of (root s) = [chapter_c1, outer_definition, theorem_node, section_s1] @ inner_definition # []"
    using a by (simp add: example_elements)
  show "xastBlockToNumber (generateBlockToNumberMap isDiv NB s) (ref_of outer_definition) = Some 0"
    using block_number_at[OF d e1, of NB isDiv] a by (simp add: nm)
  show "xastBlockToNumber (generateBlockToNumberMap isDiv NB s) (ref_of theorem_node) = Some 1"
    using block_number_at[OF d e2, of NB isDiv] a by (simp add: nm)
  show "xastBlockToNumber (generateBlockToNumberMap isDiv NB s) (ref_of inner_definition) =
        Some (if isDiv section_s1 then 0 else 2)"
    using block_number_at[OF d e3, of NB isDiv] a by (simp add: nm)
qed

text \<open>The example document with \<^verbatim>\<open>chapter\<close> and \<^verbatim>\<open>section\<close> as divisions.\<close>

theorem block_numbering_witness:
  "distinct_refs example_doc \<and>
   elements_of example_doc = [chapter_c1, outer_definition] @ theorem_node # [section_s1, inner_definition] \<and>
   name_of theorem_node \<in> {''definition'', ''theorem''} \<and>
   \<not> division_by_name {''chapter'', ''section''} theorem_node \<and>
   xastBlockToNumber
     (generateBlockToNumberMap (division_by_name {''chapter'', ''section''}) {''definition'', ''theorem''}
        ((constructor 9)\<lparr>root := example_doc\<rparr>)) (ref_of theorem_node) = Some 1 \<and>
   xastBlockToNumber
     (generateBlockToNumberMap (division_by_name {''chapter'', ''section''}) {''definition'', ''theorem''}
        ((constructor 9)\<lparr>root := example_doc\<rparr>)) (ref_of inner_definition) = Some 0"
proof -
  let ?s = "(constructor 9)\<lparr>root := example_doc\<rparr>"
  let ?D = "division_by_name {''chapter'', ''section''}"
  let ?NB = "{''definition'', ''theorem''}"
  have e: "elements_of (root ?s) = [chapter_c1, outer_definition] @ theorem_node # [section_s1, inner_definition]"
    by (simp add: example_elements)
  have d: "distinct_refs (root ?s)" by (simp add: example_distinct)
  have n: "name_of theorem_node \<in> ?NB" by (simp add: theorem_node_def)
  have nd: "\<not> ?D outer_definition" "\<not> ?D theorem_node" "\<not> ?D inner_definition" "?D section_s1"
    by (simp_all add: division_by_name_def example_defs)
  have bs: "blocks_since_division ?D ?NB (rev [chapter_c1, outer_definition]) = 1"
    by (simp add: division_by_name_def example_defs)
  have g: "xastBlockToNumber (generateBlockToNumberMap ?D ?NB ?s) (ref_of theorem_node) = Some 1"
    using block_numbering[of ?s "[chapter_c1, outer_definition]" theorem_node
        "[section_s1, inner_definition]" ?NB ?D] d e n nd bs
    by simp
  have sc: "xastBlockToNumber (generateBlockToNumberMap ?D ?NB ?s) (ref_of inner_definition) = Some 0"
    using block_numbering[of ?s "[]" chapter_c1 "[]" ?NB ?D] nd
    by simp
  show ?thesis using g sc d e n nd by simp
qed

section \<open>Division membership and the queries\<close>

text \<open>
  Claim C6.  After \<^verbatim>\<open>_generateNodeToDivisionIdMap\<close>, for a node visited with ancestor chain
  \<open>ps\<close> (nearest first): a node recorded as a division is mapped to its own identifier
  (\<^verbatim>\<open>xml:id\<close>, or the empty string); any other node is mapped to the identifier of the
  first recorded division on its ancestor chain; and a node with no enclosing division is
  left as it was (unmapped, when the map had no entry for it).
\<close>

theorem division_membership:
  assumes "distinct_refs (root s)" and "(n, ps) \<in> set (visit_order [] (root s))"
  shows "(recorded_division s n \<longrightarrow>
            xastNodeToTocDivisionId (generateNodeToDivisionIdMap s) (ref_of n) =
              Some (attr_or_empty ''xml:id'' n)) \<and>
         (\<not> recorded_division s n \<longrightarrow>
            (case find (recorded_division s) ps of
               Some d \<Rightarrow> xastNodeToTocDivisionId (generateNodeToDivisionIdMap s) (ref_of n) =
                           Some (attr_or_empty ''xml:id'' d)
             | None \<Rightarrow> xastNodeToTocDivisionId (generateNodeToDivisionIdMap s) (ref_of n) =
                         xastNodeToTocDivisionId s (ref_of n)))"
  using divisionId_visited[OF assms]
  by (simp add: division_id_for_def split: option.splits)

text \<open>
  In the example document the inner definition belongs to \<^verbatim>\<open>s1\<close>, the chapter to itself,
  and the root stays unmapped.
\<close>

theorem division_membership_witness:
  "distinct_refs (root indexed_example) \<and>
   (inner_definition, [section_s1, chapter_c1, example_doc]) \<in> set (visit_order [] (root indexed_example)) \<and>
   \<not> recorded_division indexed_example inner_definition \<and>
   xastNodeToTocDivisionId (generateNodeToDivisionIdMap indexed_example) (ref_of inner_definition) =
     Some ''s1'' \<and>
   xastNodeToTocDivisionId (generateNodeToDivisionIdMap indexed_example) (ref_of chapter_c1) =
     Some ''c1'' \<and>
   xastNodeToTocDivisionId (generateNodeToDivisionIdMap indexed_example) (ref_of example_doc) = None"
proof -
  have d: "distinct_refs (root indexed_example)"
    by (simp add: indexed_example_simps example_distinct)
  have v: "(inner_definition, [section_s1, chapter_c1, example_doc]) \<in> set (visit_order [] (root indexed_example))"
    "(chapter_c1, [example_doc]) \<in> set (visit_order [] (root indexed_example))"
    "(example_doc, []) \<in> set (visit_order [] (root indexed_example))"
    by (simp_all add: indexed_example_simps example_visits)
  show ?thesis
    using division_membership[OF d v(1)] division_membership[OF d v(2)]
      division_membership[OF d v(3)] d v(1)
    by (simp add: indexed_example_divisions example_ids indexed_example_simps(3))
qed

text \<open>
  Claim C7.  After the division-membership pass on a map that had no entry for the node
  (as at construction), \<^verbatim>\<open>getTocItemInfo(node)\<close> is non-empty iff the nearest enclosing
  division of the node (the node itself, if it is a division) has an entry in the ToC info
  map, under its identifier.  The ToC info map has no entry under the empty string.
\<close>

theorem getTocItemInfo_iff:
  assumes "distinct_refs (root s)" and "(n, ps) \<in> set (visit_order [] (root s))"
      and "xastNodeToTocDivisionId s (ref_of n) = None"
      and "no_empty_key (tocInfoMap s)"
  shows "getTocItemInfo (generateNodeToDivisionIdMap s) n \<noteq> None \<longleftrightarrow>
           (\<exists>d. find (recorded_division s) (n # ps) = Some d \<and>
                tocInfoMap (generateNodeToDivisionIdMap s) (attr_or_empty ''xml:id'' d) \<noteq> None)"
proof -
  have e: "tocInfoMap s [] = None" using assms(4) by (simp add: no_empty_key_def)
  show ?thesis
  proof (cases "find (recorded_division s) (n # ps)")
    case None
    then have "division_id_for (recorded_division s) n ps = None"
      by (simp add: division_id_for_def split: if_splits)
    then have "xastNodeToTocDivisionId (generateNodeToDivisionIdMap s) (ref_of n) = None"
      using divisionId_visited[OF assms(1,2)] assms(3) by simp
    then show ?thesis using None by (simp add: getTocItemInfo_def)
  next
    case (Some d)
    have m: "xastNodeToTocDivisionId (generateNodeToDivisionIdMap s) (ref_of n) =
               Some (attr_or_empty ''xml:id'' d)"
      by (rule divisionId_enclosing[OF assms(1,2) Some])
    have rhs: "(\<exists>d'. find (recorded_division s) (n # ps) = Some d' \<and> Q d') = Q d" for Q
      unfolding Some by auto
    have lhs: "getTocItemInfo (generateNodeToDivisionIdMap s) n =
                 (if attr_or_empty ''xml:id'' d \<noteq> []
                  then tocInfoMap (generateNodeToDivisionIdMap s) (attr_or_empty ''xml:id'' d)
                  else None)"
      by (simp add: getTocItemInfo_def m)
    show ?thesis
      unfolding rhs lhs using e by (simp add: generateNodeToDivisionIdMap_others)
  qed
qed

text \<open>
  The inner definition of the example document, whose section is in the ToC, and the text
  inside a chapter that has no \<^verbatim>\<open>xml:id\<close> and hence no ToC entry.
\<close>

theorem getTocItemInfo_iff_witness:
  "distinct_refs (root indexed_example) \<and>
   (inner_definition, [section_s1, chapter_c1, example_doc]) \<in> set (visit_order [] (root indexed_example)) \<and>
   xastNodeToTocDivisionId indexed_example (ref_of inner_definition) = None \<and>
   no_empty_key (tocInfoMap indexed_example) \<and>
   find (recorded_division indexed_example) [inner_definition, section_s1, chapter_c1, example_doc] =
     Some section_s1 \<and>
   getTocItemInfo (generateNodeToDivisionIdMap indexed_example) inner_definition \<noteq> None \<and>
   no_empty_key (tocInfoMap bare_state) \<and>
   find (recorded_division bare_state) [bare_text, bare_chapter, bare_doc] = Some bare_chapter \<and>
   getTocItemInfo (generateNodeToDivisionIdMap bare_state) bare_text = None"
proof -
  have d: "distinct_refs (root indexed_example)"
    by (simp add: indexed_example_simps example_distinct)
  have v: "(inner_definition, [section_s1, chapter_c1, example_doc]) \<in> set (visit_order [] (root indexed_example))"
    by (simp add: indexed_example_simps example_visits)
  have f: "xastNodeToTocDivisionId indexed_example (ref_of inner_definition) = None"
    by (simp add: indexed_example_simps)
  have k: "no_empty_key (tocInfoMap indexed_example)"
    by (simp add: no_empty_key_def indexed_example_simps)
  have e: "find (recorded_division indexed_example) [inner_definition, section_s1, chapter_c1, example_doc] =
     Some section_s1"
    by (simp add: indexed_example_divisions)
  have t: "tocInfoMap (generateNodeToDivisionIdMap indexed_example) (attr_or_empty ''xml:id'' section_s1) \<noteq> None"
    by (simp add: generateNodeToDivisionIdMap_others indexed_example_simps example_ids)
  have 1: "getTocItemInfo (generateNodeToDivisionIdMap indexed_example) inner_definition \<noteq> None"
    using getTocItemInfo_iff[OF d v f k] e t by simp
  have bd: "distinct_refs (root bare_state)" by (simp add: bare_state_simps bare_distinct)
  have bv: "(bare_text, [bare_chapter, bare_doc]) \<in> set (visit_order [] (root bare_state))"
    by (simp add: bare_state_simps bare_visits)
  have bf: "xastNodeToTocDivisionId bare_state (ref_of bare_text) = None"
    by (simp add: bare_state_simps)
  have bk: "no_empty_key (tocInfoMap bare_state)"
    by (simp add: no_empty_key_def bare_state_simps)
  have be: "find (recorded_division bare_state) [bare_text, bare_chapter, bare_doc] = Some bare_chapter"
    by (simp add: bare_state_divisions)
  have bt: "tocInfoMap (generateNodeToDivisionIdMap bare_state) (attr_or_empty ''xml:id'' bare_chapter) = None"
    by (simp add: generateNodeToDivisionIdMap_others bare_state_simps bare_chapter_id)
  have 2: "getTocItemInfo (generateNodeToDivisionIdMap bare_state) bare_text = None"
    using getTocItemInfo_iff[OF bd bv bf bk] be bt by simp
  show ?thesis using d v f k e 1 bk be 2 by simp
qed

text \<open>
  Claim C8.  \<^verbatim>\<open>getRefTargetInfo(refNode)\<close> resolves by looking the \<^verbatim>\<open>ref\<close> attribute of the
  node up in the cross-reference target index.  When the target is unresolved, because
  the node has no attributes at all, or no \<^verbatim>\<open>ref\<close> attribute, or because the index has no
  such key, the result is absent; the query has no failing case.  The index has no entry
  under the empty string.
\<close>

theorem getRefTargetInfo_unresolved:
  assumes "no_empty_key (xrefableMap s)"
  shows "(attributes_of node = None \<longrightarrow> getRefTargetInfo s node = None) \<and>
         (attr_of ''ref'' node = None \<longrightarrow> getRefTargetInfo s node = None) \<and>
         (\<forall>refTargetId. attr_of ''ref'' node = Some refTargetId \<longrightarrow>
            getRefTargetInfo s node = xrefableMap s refTargetId) \<and>
         (\<forall>refTargetId. attr_of ''ref'' node = Some refTargetId \<and>
              xrefableMap s refTargetId = None \<longrightarrow>
            getRefTargetInfo s node = None)"
  using assms
  by (auto simp: getRefTargetInfo_def attr_or_empty_def attr_of_def no_empty_key_def)

text \<open>
  A cross-reference to the chapter \<^verbatim>\<open>c1\<close> resolves; one to an unknown target, one without
  a \<^verbatim>\<open>ref\<close> attribute and one without attributes do not.
\<close>

theorem getRefTargetInfo_unresolved_witness:
  "no_empty_key (xrefableMap xref_state) \<and>
   attr_of ''ref'' xref_to_c1 = Some ''c1'' \<and>
   getRefTargetInfo xref_state xref_to_c1 = Some chapter_target \<and>
   attr_of ''ref'' xref_dangling = Some ''nowhere'' \<and>
   xrefableMap xref_state ''nowhere'' = None \<and>
   getRefTargetInfo xref_state xref_dangling = None \<and>
   attributes_of xref_without_attribute \<noteq> None \<and> attr_of ''ref'' xref_without_attribute = None \<and>
   getRefTargetInfo xref_state xref_without_attribute = None \<and>
   attributes_of xref_without_ref = None \<and>
   getRefTargetInfo xref_state xref_without_ref = None"
proof -
  have k: "no_empty_key (xrefableMap xref_state)"
    by (simp add: no_empty_key_def xref_state_def constructor_def)
  have m: "xrefableMap xref_state ''c1'' = Some chapter_target"
    "xrefableMap xref_state ''nowhere'' = None"
    by (simp_all add: xref_state_def constructor_def)
  have a: "attr_of ''ref'' xref_to_c1 = Some ''c1''"
    "attr_of ''ref'' xref_dangling = Some ''nowhere''"
    "attributes_of xref_without_attribute \<noteq> None" "attr_of ''ref'' xref_without_attribute = None"
    "attributes_of xref_without_ref = None"
    by (simp_all add: attr_of_def xref_to_c1_def xref_dangling_def xref_without_attribute_def
          xref_without_ref_def)
  show ?thesis
    using getRefTargetInfo_unresolved[OF k, of xref_to_c1]
      getRefTargetInfo_unresolved[OF k, of xref_dangling]
      getRefTargetInfo_unresolved[OF k, of xref_without_attribute]
      getRefTargetInfo_unresolved[OF k, of xref_without_ref] k m a
    by simp
qed

text \<open>
  Claim C9.  For a node whose nearest enclosing division has no \<^verbatim>\<open>xml:id\<close> attribute, the
  division-membership map records the empty string, and \<^verbatim>\<open>getTocItemInfo\<close>,
  \<^verbatim>\<open>getDivisionDisplayName\<close> and \<^verbatim>\<open>getBlockInfo\<close> all return nothing, exactly as they do for a
  node without a division-membership entry.  The ToC info map has no entry under the
  empty string.
\<close>

theorem no_xml_id_division:
  assumes "distinct_refs (root s)" and "(n, ps) \<in> set (visit_order [] (root s))"
      and "find (recorded_division s) (n # ps) = Some d"
      and "attr_of ''xml:id'' d = None"
      and "no_empty_key (tocInfoMap s)"
  shows "xastNodeToTocDivisionId (generateNodeToDivisionIdMap s) (ref_of n) = Some [] \<and>
         getTocItemInfo (generateNodeToDivisionIdMap s) n = None \<and>
         getDivisionDisplayName tbl (generateNodeToDivisionIdMap s) n = None \<and>
         getBlockInfo tbl (generateNodeToDivisionIdMap s) n = None \<and>
         (\<forall>n0. xastNodeToTocDivisionId (generateNodeToDivisionIdMap s) (ref_of n0) = None \<longrightarrow>
            getTocItemInfo (generateNodeToDivisionIdMap s) n0 = None \<and>
            getDivisionDisplayName tbl (generateNodeToDivisionIdMap s) n0 = None \<and>
            getBlockInfo tbl (generateNodeToDivisionIdMap s) n0 = None)"
proof -
  have e: "attr_or_empty ''xml:id'' d = []"
    using assms(4) by (simp add: attr_or_empty_def)
  have m: "xastNodeToTocDivisionId (generateNodeToDivisionIdMap s) (ref_of n) = Some []"
    using divisionId_enclosing[OF assms(1,2,3)] e by simp
  have t: "tocInfoMap (generateNodeToDivisionIdMap s) [] = None"
    using assms(5) by (simp add: no_empty_key_def generateNodeToDivisionIdMap_others)
  show ?thesis
    by (simp add: m t getTocItemInfo_def getBlockInfo_def getDivisionDisplayName_def)
qed

text \<open>The chapter without \<^verbatim>\<open>xml:id\<close>, the text inside it, and the root, which has no division.\<close>

theorem no_xml_id_division_witness:
  "distinct_refs (root bare_state) \<and>
   (bare_text, [bare_chapter, bare_doc]) \<in> set (visit_order [] (root bare_state)) \<and>
   find (recorded_division bare_state) [bare_text, bare_chapter, bare_doc] = Some bare_chapter \<and>
   attr_of ''xml:id'' bare_chapter = None \<and>
   no_empty_key (tocInfoMap bare_state) \<and>
   xastNodeToTocDivisionId (generateNodeToDivisionIdMap bare_state) (ref_of bare_text) = Some [] \<and>
   getTocItemInfo (generateNodeToDivisionIdMap bare_state) bare_text = None \<and>
   getDivisionDisplayName display_names (generateNodeToDivisionIdMap bare_state) bare_text = None \<and>
   getBlockInfo display_names (generateNodeToDivisionIdMap bare_state) bare_text = None \<and>
   getDivisionDisplayName display_names (generateNodeToDivisionIdMap bare_state) bare_chapter = None \<and>
   xastNodeToTocDivisionId (generateNodeToDivisionIdMap bare_state) (ref_of bare_doc) = None \<and>
   getDivisionDisplayName display_names (generateNodeToDivisionIdMap bare_state) bare_doc = None"
proof -
  have d: "distinct_refs (root bare_state)" by (simp add: bare_state_simps bare_distinct)
  have v: "(bare_text, [bare_chapter, bare_doc]) \<in> set (visit_order [] (root bare_state))"
    "(bare_chapter, [bare_doc]) \<in> set (visit_order [] (root bare_state))"
    "(bare_doc, []) \<in> set (visit_order [] (root bare_state))"
    by (simp_all add: bare_state_simps bare_visits)
  have f: "find (recorded_division bare_state) [bare_text, bare_chapter, bare_doc] = Some bare_chapter"
    "find (recorded_division bare_state) [bare_chapter, bare_doc] = Some bare_chapter"
    by (simp_all add: bare_state_divisions)
  have k: "no_empty_key (tocInfoMap bare_state)"
    by (simp add: no_empty_key_def bare_state_simps)
  have r: "xastNodeToTocDivisionId (generateNodeToDivisionIdMap bare_state) (ref_of bare_doc) = None"
    using divisionId_visited[OF d v(3)]
    by (simp add: division_id_for_def bare_state_divisions bare_state_simps)
  show ?thesis
    using no_xml_id_division[OF d v(1) f(1) bare_chapter_id(1) k, of display_names]
      no_xml_id_division[OF d v(2) f(2) bare_chapter_id(1) k, of display_names]
      d v(1) f(1) bare_chapter_id(1) k r
    by simp
qed

text \<open>
  Claim C10.  For an element that is not a numbered block (and had no block number before
  the pass) and whose nearest enclosing division has a non-empty identifier with a ToC
  entry, \<^verbatim>\<open>getBlockInfo\<close> returns a present result: the display name (from the table, or
  the tag name), the division's ToC info, and no number.
\<close>

theorem getBlockInfo_unnumbered:
  assumes "distinct_refs (root s)" and "(n, ps) \<in> set (visit_order [] (root s))"
      and "isElement n" and "name_of n \<notin> NB"
      and "xastBlockToNumber s (ref_of n) = None"
      and "find (recorded_division s) (n # ps) = Some d"
      and "attr_or_empty ''xml:id'' d \<noteq> []"
      and "tocInfoMap s (attr_or_empty ''xml:id'' d) = Some di"
  shows "getBlockInfo tbl (generateBlockToNumberMap isDiv NB (generateNodeToDivisionIdMap s)) n =
           Some \<lparr> displayName =
                    (case tbl (name_of n) of
                       None \<Rightarrow> name_of n
                     | Some dn \<Rightarrow> if dn \<noteq> [] then dn else name_of n),
                  number = None, divisionInfo = di \<rparr>"
proof -
  let ?s1 = "generateNodeToDivisionIdMap s"
  have mem: "n \<in> set (nodes_of (root ?s1))"
    using assms(2) by (force simp: nodes_of_def generateNodeToDivisionIdMap_others)
  have d1: "distinct_refs (root ?s1)"
    using assms(1) by (simp add: generateNodeToDivisionIdMap_others)
  have num: "xastBlockToNumber (generateBlockToNumberMap isDiv NB ?s1) (ref_of n) = None"
    using block_number_unnumbered[OF d1 mem assms(4), of isDiv] assms(5)
    by (simp add: generateNodeToDivisionIdMap_others)
  have "getTocItemInfo ?s1 n = Some di"
    using divisionId_enclosing[OF assms(1,2,6)] assms(7,8)
    by (simp add: getTocItemInfo_def generateNodeToDivisionIdMap_others)
  then have toc: "getTocItemInfo (generateBlockToNumberMap isDiv NB ?s1) n = Some di"
    by (simp only: getTocItemInfo_block_pass)
  show ?thesis by (simp add: getBlockInfo_def num toc)
qed

text \<open>
  The section of the example document: a division in the ToC, not a numbered block.
\<close>

theorem getBlockInfo_unnumbered_witness:
  "distinct_refs (root indexed_example) \<and>
   (section_s1, [chapter_c1, example_doc]) \<in> set (visit_order [] (root indexed_example)) \<and>
   isElement section_s1 \<and> name_of section_s1 \<notin> {''definition'', ''theorem''} \<and>
   xastBlockToNumber indexed_example (ref_of section_s1) = None \<and>
   find (recorded_division indexed_example) [section_s1, chapter_c1, example_doc] = Some section_s1 \<and>
   attr_or_empty ''xml:id'' section_s1 \<noteq> [] \<and>
   tocInfoMap indexed_example (attr_or_empty ''xml:id'' section_s1) = Some section_info \<and>
   getBlockInfo display_names
     (generateBlockToNumberMap (division_by_name {''chapter'', ''section''}) {''definition'', ''theorem''}
        (generateNodeToDivisionIdMap indexed_example)) section_s1 =
     Some \<lparr> displayName = ''Section'', number = None, divisionInfo = section_info \<rparr>"
proof -
  have d: "distinct_refs (root indexed_example)"
    by (simp add: indexed_example_simps example_distinct)
  have v: "(section_s1, [chapter_c1, example_doc]) \<in> set (visit_order [] (root indexed_example))"
    by (simp add: indexed_example_simps example_visits)
  have e: "isElement section_s1" "name_of section_s1 = ''section''"
    by (simp_all add: section_s1_def)
  have nb: "name_of section_s1 \<notin> {''definition'', ''theorem''}" by (simp add: e)
  have b: "xastBlockToNumber indexed_example (ref_of section_s1) = None"
    by (simp add: indexed_example_simps)
  have f: "find (recorded_division indexed_example) [section_s1, chapter_c1, example_doc] = Some section_s1"
    by (simp add: indexed_example_divisions)
  have i: "attr_or_empty ''xml:id'' section_s1 \<noteq> []" by (simp add: example_ids)
  have t: "tocInfoMap indexed_example (attr_or_empty ''xml:id'' section_s1) = Some section_info"
    by (simp add: indexed_example_simps example_ids)
  show ?thesis
    using getBlockInfo_unnumbered[OF d v e(1) nb b f i t, of display_names
        "division_by_name {''chapter'', ''section''}"] d v e(1) nb b f i t
    by (simp add: e(2) display_names_def)
qed

end
